theory Spec2Isabelle
  imports Main "HOL-Library.Multiset"
begin

section \<open>Go integers and run-time panics\<close>

text \<open>
  Go's \<open>int\<close> is a 64-bit two's complement integer on the platforms the program is
  built for. Values are modelled as \<open>int\<close>; where a result can leave the 64-bit range
  the wrap-around is written out with \<open>wrap64\<close>. Counters that are incremented at most
  once per element of a slice cannot overflow (a slice's length is itself an \<open>int\<close>)
  and are left unwrapped.
\<close>

definition wrap64 :: "int \<Rightarrow> int" where
  "wrap64 x = (x + 2 ^ 63) mod 2 ^ 64 - 2 ^ 63"

text \<open>The run-time panics of the modelled code.\<close>

datatype error = IntegerDivideByZero | IndexOutOfRange

text \<open>Go's \<open>/\<close> on integers truncates towards zero; a zero divisor panics.\<close>

definition go_quo :: "int \<Rightarrow> int \<Rightarrow> int" where
  "go_quo a b =
     wrap64 (if (a < 0) = (b < 0) then \<bar>a\<bar> div \<bar>b\<bar> else - (\<bar>a\<bar> div \<bar>b\<bar>))"

definition go_div :: "int \<Rightarrow> int \<Rightarrow> error + int" where
  "go_div a b = (if b = 0 then Inl IntegerDivideByZero else Inr (go_quo a b))"

text \<open>\<open>fmt.Sprintf("%d", n)\<close>: the decimal digits, with a minus sign below zero.\<close>

function nat_digits :: "nat \<Rightarrow> string" where
  "nat_digits n =
     (if n < 10 then [char_of (48 + n)]
      else nat_digits (n div 10) @ [char_of (48 + n mod 10)])"
  by pat_completeness auto
termination
  by (relation "measure (\<lambda>n. n)") auto

declare nat_digits.simps [simp del]

definition itoa :: "int \<Rightarrow> string" where
  "itoa n = (if n < 0 then CHR ''-'' # nat_digits (nat (- n)) else nat_digits (nat n))"

section \<open>Contribution model\<close>

text \<open>
  A contribution is one calendar day's activity count. \<open>FetchContributions\<close> parses
  every date with the layout \<open>2006-01-02\<close>, so each \<open>Date\<close> is a midnight in UTC; it
  is represented by its day number (days since 1970-01-01, a Thursday). \<open>Count\<close> is a
  Go \<open>int\<close>.
\<close>

record Contribution =
  Date :: int
  Count :: int

section \<open>Intensity classifier\<close>

text \<open>\<open>getContributionLevel\<close>: the switch of the source, first matching case wins.\<close>

definition getContributionLevel :: "int \<Rightarrow> int" where
  "getContributionLevel = (\<lambda>count.
      if count = 0 then 0
      else if count \<le> 3 then 1
      else if count \<le> 6 then 2
      else if count \<le> 9 then 3
      else 4)"

section \<open>Aggregate statistics\<close>

record Stats =
  Total :: int
  ActiveDays :: int
  TotalDays :: int
  AverageDay :: int
  MaxDay :: int

text \<open>
  One iteration of the loop of \<open>CalculateStats\<close>. \<open>Total\<close> accumulates arbitrary
  counts, so its addition wraps; \<open>ActiveDays\<close> grows by at most one per element.
\<close>

definition stats_step :: "Stats \<Rightarrow> Contribution \<Rightarrow> Stats" where
  "stats_step stats contrib =
     (let s1 = stats\<lparr>Total := wrap64 (Total stats + Count contrib)\<rparr>;
          s2 = (if Count contrib > 0 then s1\<lparr>ActiveDays := ActiveDays s1 + 1\<rparr> else s1)
      in if Count contrib > MaxDay s2 then s2\<lparr>MaxDay := Count contrib\<rparr> else s2)"

fun stats_loop :: "Stats \<Rightarrow> Contribution list \<Rightarrow> Stats" where
  "stats_loop stats [] = stats"
| "stats_loop stats (contrib # rest) = stats_loop (stats_step stats contrib) rest"

definition CalculateStats :: "Contribution list \<Rightarrow> error + Stats" where
  "CalculateStats contributions =
     (let stats = stats_loop \<lparr>Total = 0, ActiveDays = 0,
                    TotalDays = int (length contributions), AverageDay = 0, MaxDay = 0\<rparr>
                    contributions
      in if TotalDays stats > 0 then
           (case go_div (Total stats) (TotalDays stats) of
              Inl e \<Rightarrow> Inl e
            | Inr q \<Rightarrow> Inr (stats\<lparr>AverageDay := q\<rparr>))
         else Inr stats)"

section \<open>Streaks\<close>

text \<open>
  \<open>calculateCurrentStreak\<close>. The source truncates \<open>time.Now()\<close> and every
  contribution date to a civil date; \<open>today\<close> is the day number of the current date
  and is a parameter of the model. The loop runs from the last contribution to the
  first, so \<open>current_loop\<close> recurses over the reversed slice; returning \<open>streak\<close>
  without a recursive call is the source's \<open>break\<close>.
\<close>

fun current_loop :: "int \<Rightarrow> int \<Rightarrow> int \<Rightarrow> Contribution list \<Rightarrow> int" where
  "current_loop today streak expectedDate [] = streak"
| "current_loop today streak expectedDate (contrib # rest) =
     (if Date contrib = expectedDate then
        (if Count contrib > 0 then current_loop today (streak + 1) (expectedDate - 1) rest
         else streak)
      else if Date contrib < expectedDate then
        (if streak = 0 \<and> expectedDate = today then
           (if Date contrib = today - 1 \<and> Count contrib > 0
            then current_loop today (streak + 1) (today - 1 - 1) rest
            else streak)
         else streak)
      else current_loop today streak expectedDate rest)"

definition calculateCurrentStreak :: "int \<Rightarrow> Contribution list \<Rightarrow> int" where
  "calculateCurrentStreak today contributions =
     (if length contributions = 0 then 0
      else current_loop today 0 today (rev contributions))"

text \<open>
  \<open>calculateLongestStreak\<close>. The loop state is \<open>(longest, current, prevDate)\<close>;
  \<open>prevDate\<close> starts as Go's zero \<open>time.Time\<close>, 0001-01-01.
\<close>

type_synonym streak_state = "int \<times> int \<times> int"

fun longest_loop :: "streak_state \<Rightarrow> Contribution list \<Rightarrow> streak_state" where
  "longest_loop st [] = st"
| "longest_loop (longest, current, prevDate) (contrib # rest) =
     (let current1 = (if current > 0 \<and> Date contrib \<noteq> prevDate + 1 then 0 else current)
      in if Count contrib > 0 then
           (let current2 = current1 + 1;
                longest2 = (if current2 > longest then current2 else longest)
            in longest_loop (longest2, current2, Date contrib) rest)
         else longest_loop (longest, 0, prevDate) rest)"

definition zeroDate :: int where
  "zeroDate = - 719162"

definition calculateLongestStreak :: "Contribution list \<Rightarrow> int" where
  "calculateLongestStreak contributions =
     (if length contributions = 0 then 0
      else fst (longest_loop (0, 0, zeroDate) contributions))"

text \<open>
  Runs of consecutive days with positive counts, used to state what the two loops find:
  \<open>chain_down e\<close> reads a run backwards from day \<open>e\<close>, \<open>chain_up d\<close> forwards from
  day \<open>d\<close>.
\<close>

fun chain_down :: "int \<Rightarrow> Contribution list \<Rightarrow> bool" where
  "chain_down e [] = True"
| "chain_down e (c # cs) = (Date c = e \<and> Count c > 0 \<and> chain_down (e - 1) cs)"

fun chain_up :: "int \<Rightarrow> Contribution list \<Rightarrow> bool" where
  "chain_up d [] = True"
| "chain_up d (c # cs) = (Date c = d \<and> Count c > 0 \<and> chain_up (d + 1) cs)"

section \<open>Grid builder\<close>

definition weeksToDisplay :: int where "weeksToDisplay = 52"
definition daysPerWeek :: int where "daysPerWeek = 7"


text \<open>\<open>Time.Weekday\<close> of a day number, Sunday = 0; day 0 is a Thursday.\<close>

definition Weekday :: "int \<Rightarrow> int" where
  "Weekday d = (d + 4) mod 7"

text \<open>
  The loop \<open>for startDate.Weekday() != time.Sunday { startDate = startDate.AddDate(0, 0, -1) }\<close>
  of \<open>buildGrid\<close> and \<open>renderMonthLabels\<close>. It terminates because each step back
  lowers the weekday number by one.
\<close>

lemma Weekday_pred:
  assumes "Weekday startDate \<noteq> 0"
  shows "Weekday (startDate - 1) = Weekday startDate - 1"
proof -
  define m where "m = (startDate + 4) mod 7"
  have m: "0 \<le> m - 1" "m - 1 < 7"
    using assms pos_mod_sign[of 7 "startDate + 4"] pos_mod_bound[of 7 "startDate + 4"]
    by (simp_all add: Weekday_def m_def)
  have "(startDate - 1 + 4) mod 7 = (startDate + 4 - 1) mod 7" by (simp add: algebra_simps)
  also have "\<dots> = (m - 1) mod 7" unfolding m_def by (simp add: mod_diff_left_eq)
  also have "\<dots> = m - 1" using m by (simp add: mod_pos_pos_trivial)
  finally show ?thesis by (simp add: Weekday_def m_def)
qed

function sunday_loop :: "int \<Rightarrow> int" where
  "sunday_loop startDate =
     (if Weekday startDate \<noteq> 0 then sunday_loop (startDate - 1) else startDate)"
  by pat_completeness auto
termination
proof (relation "measure (\<lambda>d. nat (Weekday d))")
  show "wf (measure (\<lambda>d. nat (Weekday d)))" by simp
next
  fix startDate :: int
  assume ns: "Weekday startDate \<noteq> 0"
  have "0 \<le> Weekday startDate" by (simp add: Weekday_def)
  then show "(startDate - 1, startDate) \<in> measure (\<lambda>d. nat (Weekday d))"
    using ns Weekday_pred[OF ns] by simp
qed

declare sunday_loop.simps [simp del]

text \<open>
  \<open>int(contrib.Date.Sub(startDate).Hours() / 24)\<close> for two midnights in UTC. The
  difference is a whole number of days, which the floating-point division returns
  exactly; \<open>Sub\<close> saturates at the largest \<open>Duration\<close>, 106751 days and a fraction,
  which the conversion to \<open>int\<close> truncates.
\<close>

definition daysSince :: "int \<Rightarrow> int \<Rightarrow> int" where
  "daysSince t u =
     (let d = t - u in if d > 106751 then 106751 else if d < - 106751 then - 106751 else d)"

text \<open>The grid \<open>[daysPerWeek][weeksToDisplay]int\<close>, zero-initialised.\<close>

definition emptyGrid :: "int list list" where
  "emptyGrid = replicate (nat daysPerWeek) (replicate (nat weeksToDisplay) 0)"

text \<open>\<open>grid[i][j] = v\<close>; an index out of range panics.\<close>

definition grid_store :: "int list list \<Rightarrow> int \<Rightarrow> int \<Rightarrow> int \<Rightarrow> error + int list list" where
  "grid_store grid i j v =
     (if 0 \<le> i \<and> i < int (length grid) then
        (let row = grid ! nat i in
         if 0 \<le> j \<and> j < int (length row) then Inr (grid[nat i := row[nat j := v]])
         else Inl IndexOutOfRange)
      else Inl IndexOutOfRange)"


fun fill_loop :: "int \<Rightarrow> int list list \<Rightarrow> Contribution list \<Rightarrow> error + int list list" where
  "fill_loop startDate grid [] = Inr grid"
| "fill_loop startDate grid (contrib # rest) =
     (let daysSinceStart = daysSince (Date contrib) startDate;
          week = go_quo daysSinceStart 7;
          dayOfWeek = Weekday (Date contrib)
      in if week \<ge> 0 \<and> week < weeksToDisplay \<and> dayOfWeek \<ge> 0 \<and> dayOfWeek < daysPerWeek then
           (case grid_store grid dayOfWeek week (Count contrib) of
              Inl e \<Rightarrow> Inl e
            | Inr grid' \<Rightarrow> fill_loop startDate grid' rest)
         else fill_loop startDate grid rest)"

definition buildGrid :: "Contribution list \<Rightarrow> error + int list list" where
  "buildGrid contributions =
     (case contributions of
        [] \<Rightarrow> Inr emptyGrid
      | first # _ \<Rightarrow> fill_loop (sunday_loop (Date first)) emptyGrid contributions)"

text \<open>
  The cell a contribution is written to, if any: the test of the \<open>if\<close> in the loop of
  \<open>buildGrid\<close>, as a function.
\<close>

definition cell_of :: "int \<Rightarrow> Contribution \<Rightarrow> (nat \<times> nat) option" where
  "cell_of startDate contrib =
     (let week = go_quo (daysSince (Date contrib) startDate) 7;
          dayOfWeek = Weekday (Date contrib)
      in if week \<ge> 0 \<and> week < weeksToDisplay \<and> dayOfWeek \<ge> 0 \<and> dayOfWeek < daysPerWeek
         then Some (nat dayOfWeek, nat week) else None)"

definition grid_shape :: "int list list \<Rightarrow> bool" where
  "grid_shape grid = (length grid = 7 \<and> (\<forall>row \<in> set grid. length row = 52))"

text \<open>
  What a run of the fill loop from grid \<open>g\<close> to grid \<open>g'\<close> does to the cells:
  a cell no contribution is written to keeps its value, and a cell written by exactly one
  contribution holds that contribution's count.
\<close>

definition cells_kept :: "int \<Rightarrow> Contribution list \<Rightarrow> int list list \<Rightarrow> int list list \<Rightarrow> bool" where
  "cells_kept a cs g g' =
     (\<forall>r w. r < 7 \<longrightarrow> w < 52 \<longrightarrow> (\<forall>c \<in> set cs. cell_of a c \<noteq> Some (r, w)) \<longrightarrow>
        g' ! r ! w = g ! r ! w)"

definition cells_stored :: "int \<Rightarrow> Contribution list \<Rightarrow> int list list \<Rightarrow> bool" where
  "cells_stored a cs g' =
     (\<forall>c \<in> set cs. \<forall>r w. cell_of a c = Some (r, w) \<longrightarrow>
        (\<forall>c' \<in> set cs. cell_of a c' = Some (r, w) \<longrightarrow> c' = c) \<longrightarrow> g' ! r ! w = Count c)"

section \<open>Calendar renderer\<close>









record Graph =
  contributions :: "Contribution list"
  title :: string
  showLegend :: bool


























section \<open>Peak coding hour\<close>

datatype TimeWindow = ThisWeek | ThisMonth | ThisYear

text \<open>
  A \<open>time.Time\<close>: an instant, in nanoseconds since the Unix epoch, and the offset of
  its zone in seconds east of UTC. \<open>Before\<close> compares instants; \<open>Hour\<close> is the hour
  of the wall clock in the value's own zone; \<open>AddDate(0, 0, n)\<close> keeps the wall clock
  and moves the date, which in a zone of fixed offset is \<open>n\<close> times 24 hours.
\<close>

record Time =
  unixNano :: int
  zoneOffset :: int

definition Before :: "Time \<Rightarrow> Time \<Rightarrow> bool" where
  "Before t u = (unixNano t < unixNano u)"

definition Hour :: "Time \<Rightarrow> int" where
  "Hour t = ((unixNano t div 1000000000 + zoneOffset t) div 3600) mod 24"

definition AddDays :: "Time \<Rightarrow> int \<Rightarrow> Time" where
  "AddDays t n = t\<lparr>unixNano := unixNano t + n * 86400000000000\<rparr>"

record Activity =
  Type :: string
  Repo :: string
  Action :: string
  Timestamp :: Time
  Public :: bool

text \<open>Reading a Go \<open>map[int]int\<close>: a missing key reads as 0.\<close>

definition lookup0 :: "(int \<rightharpoonup> int) \<Rightarrow> int \<Rightarrow> int" where
  "lookup0 m k = (case m k of None \<Rightarrow> 0 | Some v \<Rightarrow> v)"

text \<open>The counting loop: activities before the cutoff are skipped (\<open>continue\<close>).\<close>

fun count_loop :: "Time \<Rightarrow> (int \<rightharpoonup> int) \<Rightarrow> Activity list \<Rightarrow> (int \<rightharpoonup> int)" where
  "count_loop cutoff hourCounts [] = hourCounts"
| "count_loop cutoff hourCounts (activity # rest) =
     (if Before (Timestamp activity) cutoff then count_loop cutoff hourCounts rest
      else (let hour = Hour (Timestamp activity)
            in count_loop cutoff (hourCounts(hour \<mapsto> lookup0 hourCounts hour + 1)) rest))"

text \<open>
  The hand-written sort of the hour keys: for every \<open>i\<close>, every later position \<open>j\<close>
  whose element is smaller is swapped with position \<open>i\<close>. Both indices stay below the
  length by the loop conditions, so no access is out of range.
\<close>

function sort_inner :: "nat \<Rightarrow> nat \<Rightarrow> int list \<Rightarrow> int list" where
  "sort_inner i j hours =
     (if j < length hours then
        sort_inner i (j + 1)
          (if hours ! i > hours ! j then hours[i := hours ! j, j := hours ! i] else hours)
      else hours)"
  by pat_completeness auto
termination
  by (relation "measure (\<lambda>(i, j, hours). length hours - j)") auto

declare sort_inner.simps [simp del]

lemma length_sort_inner: "length (sort_inner i j hours) = length hours"
proof (induction i j hours rule: sort_inner.induct)
  case (1 i j hours)
  show ?case
  proof (cases "j < length hours")
    case True
    then show ?thesis using 1 by (subst sort_inner.simps) (simp split: if_splits)
  next
    case False
    then show ?thesis by (subst sort_inner.simps) simp
  qed
qed

function sort_outer :: "nat \<Rightarrow> int list \<Rightarrow> int list" where
  "sort_outer i hours =
     (if i < length hours then sort_outer (i + 1) (sort_inner i (i + 1) hours) else hours)"
  by pat_completeness auto
termination
  by (relation "measure (\<lambda>(i, hours). length hours - i)") (auto simp: length_sort_inner)

declare sort_outer.simps [simp del]

text \<open>The scan for the peak: a later hour replaces the peak only with a larger count.\<close>

fun peak_loop :: "(int \<rightharpoonup> int) \<Rightarrow> int \<times> int \<Rightarrow> int list \<Rightarrow> int \<times> int" where
  "peak_loop hourCounts (maxCount, peakHour) [] = (maxCount, peakHour)"
| "peak_loop hourCounts (maxCount, peakHour) (hour # rest) =
     (let count = lookup0 hourCounts hour
      in if count > maxCount then peak_loop hourCounts (count, hour) rest
         else peak_loop hourCounts (maxCount, peakHour) rest)"

text \<open>
  \<open>strings.ToLower\<close> on the bytes of an ASCII string (the only strings the program
  passes are \<open>AM\<close> and \<open>PM\<close>): the letters \<open>A\<close> to \<open>Z\<close> move to \<open>a\<close> to \<open>z\<close>.
\<close>

definition lower_char :: "char \<Rightarrow> char" where
  "lower_char c =
     (let n = of_char c :: nat in if 65 \<le> n \<and> n \<le> 90 then char_of (n + 32) else c)"

definition ToLower :: "string \<Rightarrow> string" where
  "ToLower s = map lower_char s"

definition formatHourRange :: "int \<Rightarrow> string \<Rightarrow> int \<Rightarrow> string \<Rightarrow> string" where
  "formatHourRange start startPeriod endHour endPeriod =
     (let startPeriod' = ToLower startPeriod;
          endPeriod' = ToLower endPeriod
      in if startPeriod' = endPeriod'
         then itoa start @ ''-'' @ itoa endHour @ endPeriod'
         else itoa start @ startPeriod' @ ''-'' @ itoa endHour @ endPeriod')"

text \<open>Go's \<open>%\<close>: the remainder of the truncating division.\<close>

definition go_rem :: "int \<Rightarrow> int \<Rightarrow> int" where
  "go_rem a b = a - go_quo a b * b"

text \<open>
  The conversion of an hour of the day to the 12-hour clock, written twice in the
  source (for the start and for the end of the range).
\<close>

definition period_of :: "int \<Rightarrow> string" where
  "period_of hour = (if hour \<ge> 12 then ''PM'' else ''AM'')"

definition display_of :: "int \<Rightarrow> int" where
  "display_of hour =
     (let display = (if hour \<ge> 12 \<and> hour > 12 then hour - 12 else hour)
      in if display = 0 then 12 else display)"

text \<open>The \<open>else\<close> branch that formats the peak hour as a range.\<close>

definition peak_label :: "int \<Rightarrow> string" where
  "peak_label peakHour =
     (let startHour = peakHour;
          endHour = go_rem (peakHour + 1) 24
      in formatHourRange (display_of startHour) (period_of startHour)
           (display_of endHour) (period_of endHour))"

text \<open>The \<open>switch\<close> on the time window that sets the cutoff.\<close>

definition window_cutoff :: "Time \<Rightarrow> TimeWindow \<Rightarrow> Time" where
  "window_cutoff now window =
     (case window of
        ThisWeek \<Rightarrow> AddDays now (- 7)
      | ThisMonth \<Rightarrow> AddDays now (- 30)
      | ThisYear \<Rightarrow> AddDays now (- 365))"

text \<open>
  \<open>CalculatePeakCodingHour\<close>. \<open>now\<close> is the result of \<open>time.Now()\<close>. Go does not
  specify the order in which \<open>range\<close> visits the keys of a map: \<open>range_keys\<close> stands for
  the order the run time chooses, and \<open>key_order\<close> says what every choice satisfies.
\<close>

definition key_order :: "int list \<Rightarrow> (int \<rightharpoonup> int) \<Rightarrow> bool" where
  "key_order ks m = (distinct ks \<and> set ks = dom m)"

definition CalculatePeakCodingHour ::
    "((int \<rightharpoonup> int) \<Rightarrow> int list) \<Rightarrow> Time \<Rightarrow> Activity list \<Rightarrow> TimeWindow
       \<Rightarrow> string \<times> (int \<rightharpoonup> int)" where
  "CalculatePeakCodingHour range_keys now activities window =
     (let cutoff = window_cutoff now window;
          hourCounts = count_loop cutoff Map.empty activities;
          hours = sort_outer 0 (range_keys hourCounts);
          (maxCount, peakHour) = peak_loop hourCounts (0, 0) hours;
          peakString = (if maxCount = 0 then ''No data'' else peak_label peakHour)
      in (peakString, hourCounts))"

text \<open>The number of activities at or after the cutoff whose hour of the day is \<open>h\<close>.\<close>

definition hour_count :: "Time \<Rightarrow> Activity list \<Rightarrow> int \<Rightarrow> int" where
  "hour_count cutoff activities h =
     int (length (filter (\<lambda>a. \<not> Before (Timestamp a) cutoff \<and> Hour (Timestamp a) = h) activities))"

text \<open>
  The range label as the specification words it, for comparison with \<open>peak_label\<close>:
  hour \<open>h\<close> to hour \<open>(h + 1) mod 24\<close> on the 12-hour clock (hour 0 displays as 12,
  hours 13 to 23 subtract 12, hours from 12 on are pm), the meridiem written once when
  both ends share it.
\<close>

definition spec_clock12 :: "int \<Rightarrow> int" where
  "spec_clock12 h = (if h = 0 then 12 else if 13 \<le> h \<and> h \<le> 23 then h - 12 else h)"

definition spec_meridiem :: "int \<Rightarrow> string" where
  "spec_meridiem h = (if h < 12 then ''am'' else ''pm'')"

definition spec_format_range :: "int \<Rightarrow> string \<Rightarrow> int \<Rightarrow> string \<Rightarrow> string" where
  "spec_format_range s sm e em =
     (if sm = em then itoa s @ ''-'' @ itoa e @ em
      else itoa s @ sm @ ''-'' @ itoa e @ em)"

definition spec_hour_range :: "int \<Rightarrow> string" where
  "spec_hour_range h =
     (let e = (h + 1) mod 24
      in spec_format_range (spec_clock12 h) (spec_meridiem h) (spec_clock12 e) (spec_meridiem e))"

text \<open>Example data for the closed instances of the theorems.\<close>

definition ex_now :: Time where
  "ex_now = \<lparr>unixNano = 1728000000000000000, zoneOffset = 0\<rparr>"

definition ex_act :: "int \<Rightarrow> Activity" where
  "ex_act t = \<lparr>Type = ''PushEvent'', Repo = ''r'', Action = ''pushed'',
       Timestamp = \<lparr>unixNano = t, zoneOffset = 0\<rparr>, Public = True\<rparr>"

definition ex_acts :: "Activity list" where
  "ex_acts = map ex_act [1727965800000000000, 1727878200000000000, 1727949600000000000,
      1727778600000000000, 1719392400000000000]"

section \<open>Properties\<close>

subsection \<open>Go integer arithmetic within range\<close>

lemma wrap64_id: "- (2 ^ 63) \<le> x \<Longrightarrow> x < 2 ^ 63 \<Longrightarrow> wrap64 x = x"
  unfolding wrap64_def by (simp add: mod_pos_pos_trivial)

lemma go_quo_bounds:
  assumes "0 \<le> a" "a < 2 ^ 63" "0 < b"
  shows "go_quo a b = a div b"
proof -
  have "0 \<le> a div b" using assms by (simp add: pos_imp_zdiv_nonneg_iff)
  moreover have "a div b \<le> a" using assms by (metis div_by_1 int_one_le_iff_zero_less zdiv_mono2 zero_less_one)
  ultimately show ?thesis using assms unfolding go_quo_def by (simp add: wrap64_id)
qed

subsection \<open>Intensity classifier\<close>

text \<open>
  C4. For every count \<open>c \<ge> 0\<close> the classifier returns level 0 when \<open>c = 0\<close>, level 1
  when \<open>1 \<le> c \<le> 3\<close>, level 2 when \<open>4 \<le> c \<le> 6\<close>, level 3 when \<open>7 \<le> c \<le> 9\<close> and
  level 4 when \<open>c \<ge> 10\<close>; it is monotonic non-decreasing on non-negative counts, and
  the levels of 0, 10 and 1000 are 0, 4 and 4.
\<close>

theorem getContributionLevel_thresholds:
  "(c = 0 \<longrightarrow> getContributionLevel c = 0) \<and>
   (1 \<le> c \<and> c \<le> 3 \<longrightarrow> getContributionLevel c = 1) \<and>
   (4 \<le> c \<and> c \<le> 6 \<longrightarrow> getContributionLevel c = 2) \<and>
   (7 \<le> c \<and> c \<le> 9 \<longrightarrow> getContributionLevel c = 3) \<and>
   (10 \<le> c \<longrightarrow> getContributionLevel c = 4) \<and>
   (0 \<le> a \<and> a \<le> b \<longrightarrow> getContributionLevel a \<le> getContributionLevel b) \<and>
   getContributionLevel 0 = 0 \<and> getContributionLevel 10 = 4 \<and>
   getContributionLevel 1000 = 4"
  by (simp add: getContributionLevel_def)

theorem getContributionLevel_thresholds_witness:
  "getContributionLevel 2 = 1 \<and> getContributionLevel 5 = 2 \<and>
   getContributionLevel 2 \<le> getContributionLevel 5"
  using getContributionLevel_thresholds [of 2 2 5]
    getContributionLevel_thresholds [of 5 2 5] by simp

subsection \<open>Aggregate statistics\<close>

lemma stats_loop_inv:
  assumes "\<forall>c \<in> set cs. 0 \<le> Count c"
    and "Total s + sum_list (map Count cs) < 2 ^ 63"
    and "0 \<le> ActiveDays s" "0 \<le> MaxDay s" "MaxDay s \<le> Total s"
  shows "Total (stats_loop s cs) = Total s + sum_list (map Count cs) \<and>
         TotalDays (stats_loop s cs) = TotalDays s \<and>
         AverageDay (stats_loop s cs) = AverageDay s \<and>
         ActiveDays s \<le> ActiveDays (stats_loop s cs) \<and>
         ActiveDays (stats_loop s cs) \<le> ActiveDays s + int (length cs) \<and>
         MaxDay s \<le> MaxDay (stats_loop s cs) \<and>
         MaxDay (stats_loop s cs) \<le> Total (stats_loop s cs) \<and>
         Total (stats_loop s cs) \<le> Total s + int (length cs) * MaxDay (stats_loop s cs)"
  using assms
proof (induction cs arbitrary: s)
  case Nil
  then show ?case by simp
next
  case (Cons c cs)
  define s3 where "s3 = stats_step s c"
  have c0: "0 \<le> Count c" and rest0: "\<forall>c \<in> set cs. 0 \<le> Count c" using Cons.prems(1) by auto
  have sum0: "0 \<le> sum_list (map Count cs)" using rest0 by (intro sum_list_nonneg) auto
  have tot0: "0 \<le> Total s" using Cons.prems by linarith
  have w: "wrap64 (Total s + Count c) = Total s + Count c"
    using Cons.prems(2) c0 sum0 tot0 by (intro wrap64_id) auto
  have T3: "Total s3 = Total s + Count c" using w by (simp add: s3_def stats_step_def Let_def)
  have A3: "ActiveDays s3 = (if Count c > 0 then ActiveDays s + 1 else ActiveDays s)"
    by (simp add: s3_def stats_step_def Let_def)
  have M3: "MaxDay s3 = max (MaxDay s) (Count c)" by (simp add: s3_def stats_step_def Let_def max_def)
  have D3: "TotalDays s3 = TotalDays s" "AverageDay s3 = AverageDay s"
    by (simp_all add: s3_def stats_step_def Let_def)
  have step: "stats_loop s (c # cs) = stats_loop s3 cs" by (simp add: s3_def)
  have pre: "Total s3 + sum_list (map Count cs) < 2 ^ 63" "0 \<le> ActiveDays s3"
    "0 \<le> MaxDay s3" "MaxDay s3 \<le> Total s3"
    using Cons.prems c0 T3 A3 M3 by (auto simp: max_def)
  note IH = Cons.IH[OF rest0 pre]
  have mono: "MaxDay s3 \<le> MaxDay (stats_loop s3 cs)" using IH by blast
  have "Total (stats_loop s3 cs) \<le> Total s3 + int (length cs) * MaxDay (stats_loop s3 cs)"
    using IH by blast
  moreover have "Count c \<le> MaxDay (stats_loop s3 cs)" using mono M3 by linarith
  ultimately have last: "Total (stats_loop s3 cs)
       \<le> Total s + int (length (c # cs)) * MaxDay (stats_loop s3 cs)"
    using T3 by (simp add: algebra_simps)
  have A: "ActiveDays s \<le> ActiveDays s3" "ActiveDays s3 \<le> ActiveDays s + 1" using A3 by auto
  have M: "MaxDay s \<le> MaxDay s3" using M3 by simp
  show ?case unfolding step using IH T3 D3 last A M by simp
qed

text \<open>
  C10. As stated (for every sequence with non-negative counts) the invariants fail: the
  sum of two counts of \<open>2 ^ 62\<close> wraps around to \<open>- (2 ^ 63)\<close>, so \<open>MaxDay\<close> exceeds
  \<open>Total\<close> and \<open>AverageDay\<close> is negative.
\<close>

theorem CalculateStats_counterexample:
  "CalculateStats [\<lparr>Date = 0, Count = 2 ^ 62\<rparr>, \<lparr>Date = 1, Count = 2 ^ 62\<rparr>] =
     Inr \<lparr>Total = - (2 ^ 63), ActiveDays = 2, TotalDays = 2, AverageDay = - (2 ^ 62), MaxDay = 2 ^ 62\<rparr>"
  by (simp add: CalculateStats_def stats_step_def go_div_def go_quo_def wrap64_def Let_def)

text \<open>
  C10, amended. For every contribution sequence with non-negative counts whose sum is
  below \<open>2 ^ 63\<close>, \<open>CalculateStats\<close> returns statistics with
  \<open>0 \<le> ActiveDays \<le> TotalDays\<close>, \<open>TotalDays\<close> the length of the sequence,
  \<open>0 \<le> AverageDay \<le> MaxDay\<close> and \<open>MaxDay \<le> Total\<close>.
\<close>

theorem CalculateStats_invariants:
  assumes "\<forall>c \<in> set cs. 0 \<le> Count c" and "sum_list (map Count cs) < 2 ^ 63"
  shows "\<exists>s. CalculateStats cs = Inr s \<and>
           0 \<le> ActiveDays s \<and> ActiveDays s \<le> TotalDays s \<and>
           TotalDays s = int (length cs) \<and>
           0 \<le> AverageDay s \<and> AverageDay s \<le> MaxDay s \<and> MaxDay s \<le> Total s"
proof -
  let ?init = "\<lparr>Total = 0, ActiveDays = 0, TotalDays = int (length cs), AverageDay = 0, MaxDay = 0\<rparr>"
  let ?fin = "stats_loop ?init cs"
  have inv: "Total ?fin = sum_list (map Count cs)" "TotalDays ?fin = int (length cs)"
    "AverageDay ?fin = 0" "0 \<le> ActiveDays ?fin" "ActiveDays ?fin \<le> int (length cs)"
    "0 \<le> MaxDay ?fin" "MaxDay ?fin \<le> Total ?fin" "Total ?fin \<le> int (length cs) * MaxDay ?fin"
    using stats_loop_inv[where cs=cs and s="?init"] assms by auto
  show ?thesis
  proof (cases "cs = []")
    case True
    then show ?thesis by (simp add: CalculateStats_def)
  next
    case False
    then have n: "0 < int (length cs)" by simp
    have t0: "0 \<le> Total ?fin" using inv by linarith
    have q: "go_quo (Total ?fin) (int (length cs)) = Total ?fin div int (length cs)"
      using go_quo_bounds[OF t0 _ n] inv(1) assms(2) by simp
    have q0: "0 \<le> Total ?fin div int (length cs)" using t0 n by (simp add: pos_imp_zdiv_nonneg_iff)
    have "Total ?fin div int (length cs) \<le> (int (length cs) * MaxDay ?fin) div int (length cs)"
      using inv(8) n by (rule zdiv_mono1)
    moreover have "(int (length cs) * MaxDay ?fin) div int (length cs) = MaxDay ?fin"
      using n by (intro nonzero_mult_div_cancel_left) simp
    ultimately have q1: "Total ?fin div int (length cs) \<le> MaxDay ?fin" by simp
    show ?thesis using n q q0 q1 inv
      by (simp add: CalculateStats_def go_div_def Let_def)
  qed
qed

theorem CalculateStats_invariants_witness:
  "CalculateStats [\<lparr>Date = 0, Count = 5\<rparr>, \<lparr>Date = 1, Count = 0\<rparr>, \<lparr>Date = 2, Count = 2\<rparr>] =
     Inr \<lparr>Total = 7, ActiveDays = 2, TotalDays = 3, AverageDay = 2, MaxDay = 5\<rparr>"
  using CalculateStats_invariants [of "[\<lparr>Date = 0, Count = 5\<rparr>, \<lparr>Date = 1, Count = 0\<rparr>, \<lparr>Date = 2, Count = 2\<rparr>]"]
  by (simp add: CalculateStats_def stats_step_def go_div_def go_quo_def wrap64_def Let_def)

subsection \<open>Streaks\<close>

lemma chain_up_snoc:
  "chain_up d (xs @ [c]) = (chain_up d xs \<and> Date c = d + int (length xs) \<and> Count c > 0)"
proof (induction xs arbitrary: d)
  case Nil
  then show ?case by simp
next
  case (Cons a xs)
  have e: "d + 1 + int (length xs) = d + int (Suc (length xs))" by simp
  show ?case
    by (simp only: append_Cons chain_up.simps Cons.IH e conj_assoc length_Cons)
qed

lemma chain_down_rev:
  "chain_down e run \<Longrightarrow> chain_up (e - int (length run) + 1) (rev run)"
proof (induction run arbitrary: e)
  case Nil
  then show ?case by simp
next
  case (Cons c cs)
  have "chain_up (e - 1 - int (length cs) + 1) (rev cs)"
    using Cons.IH[of "e - 1"] Cons.prems by simp
  then show ?case using Cons.prems by (simp add: chain_up_snoc algebra_simps)
qed

text \<open>
  Once a first day has been counted, the backward scan counts exactly the entries of a
  run that ends at the expected date.
\<close>

lemma current_loop_started:
  assumes "0 < s" "sorted_wrt (>) (map Date rs)" "\<forall>c \<in> set rs. Date c \<le> e"
  shows "\<exists>run rest. rs = run @ rest \<and> chain_down e run \<and>
           current_loop today s e rs = s + int (length run)"
  using assms
proof (induction rs arbitrary: s e)
  case Nil
  then show ?case by simp
next
  case (Cons c rs)
  show ?case
  proof (cases "Date c = e \<and> Count c > 0")
    case True
    have 1: "\<forall>x \<in> set rs. Date x \<le> e - 1" using Cons.prems(2) True by auto
    have 2: "sorted_wrt (>) (map Date rs)" using Cons.prems(2) by simp
    have 3: "0 < s + 1" using Cons.prems(1) by simp
    obtain run rest where r: "rs = run @ rest" "chain_down (e - 1) run"
      "current_loop today (s + 1) (e - 1) rs = s + 1 + int (length run)"
      using Cons.IH[OF 3 2 1] by blast
    have a: "c # rs = (c # run) @ rest" using r(1) by simp
    have b: "chain_down e (c # run)" using r(2) True by simp
    have c: "current_loop today s e (c # rs) = s + int (length (c # run))"
      using r(3) True by simp
    show ?thesis using a b c by blast
  next
    case False
    have "Date c \<le> e" using Cons.prems(3) by simp
    then have "current_loop today s e (c # rs) = s" using False Cons.prems(1) by auto
    then have "c # rs = [] @ (c # rs) \<and> chain_down e [] \<and>
        current_loop today s e (c # rs) = s + int (length ([]::Contribution list))" by simp
    then show ?thesis by blast
  qed
qed

lemma current_loop_run:
  assumes "sorted_wrt (>) (map Date rs)"
  shows "\<exists>skip run rest e. rs = skip @ run @ rest \<and> chain_down e run \<and>
           current_loop today 0 today rs = int (length run)"
  using assms
proof (induction rs)
  case Nil
  have "[] = [] @ [] @ ([]::Contribution list) \<and> chain_down today [] \<and>
     current_loop today 0 today [] = int (length ([]::Contribution list))" by simp
  then show ?case by blast
next
  case (Cons c rs)
  have srt: "sorted_wrt (>) (map Date rs)" and lt: "\<forall>x \<in> set rs. Date x < Date c"
    using Cons.prems by auto
  consider (skip) "Date c > today"
    | (start) "Date c = today" "Count c > 0"
    | (grace) "Date c = today - 1" "Count c > 0"
    | (stop) "Date c \<le> today" "\<not> (Date c = today \<and> Count c > 0)" "\<not> (Date c = today - 1 \<and> Count c > 0)"
    by linarith
  then show ?case
  proof cases
    case skip
    obtain sk run rest e where r: "rs = sk @ run @ rest" "chain_down e run"
      "current_loop today 0 today rs = int (length run)"
      using Cons.IH[OF srt] by blast
    have "c # rs = (c # sk) @ run @ rest" using r(1) by simp
    moreover have "current_loop today 0 today (c # rs) = int (length run)" using r(3) skip by simp
    ultimately show ?thesis using r(2) by blast
  next
    case start
    have le: "\<forall>x \<in> set rs. Date x \<le> today - 1" using lt start by auto
    obtain run rest where r: "rs = run @ rest" "chain_down (today - 1) run"
      "current_loop today 1 (today - 1) rs = 1 + int (length run)"
      using current_loop_started[OF _ srt le, of 1 today] by auto
    have a: "c # rs = [] @ (c # run) @ rest" using r(1) by simp
    have b: "chain_down today (c # run)" using r(2) start by simp
    have c: "current_loop today 0 today (c # rs) = int (length (c # run))" using r(3) start by simp
    show ?thesis using a b c by blast
  next
    case grace
    have le: "\<forall>x \<in> set rs. Date x \<le> today - 1 - 1" using lt grace by auto
    obtain run rest where r: "rs = run @ rest" "chain_down (today - 1 - 1) run"
      "current_loop today 1 (today - 1 - 1) rs = 1 + int (length run)"
      using current_loop_started[OF _ srt le, of 1 today] by auto
    have a: "c # rs = [] @ (c # run) @ rest" using r(1) by simp
    have b: "chain_down (today - 1) (c # run)" using r(2) grace by simp
    have c: "current_loop today 0 today (c # rs) = int (length (c # run))" using r(3) grace by simp
    show ?thesis using a b c by blast
  next
    case stop
    have "current_loop today 0 today (c # rs) = 0" using stop by auto
    then have "c # rs = [] @ [] @ (c # rs) \<and> chain_down today [] \<and>
      current_loop today 0 today (c # rs) = int (length ([]::Contribution list))" by simp
    then show ?thesis by blast
  qed
qed


lemma longest_loop_append:
  "longest_loop st (xs @ ys) = longest_loop (longest_loop st xs) ys"
  by (induction st xs rule: longest_loop.induct) (simp_all add: Let_def)

lemma longest_loop_mono: "l \<le> fst (longest_loop (l, c, p) xs)"
proof (induction xs arbitrary: l c p)
  case Nil
  then show ?case by simp
next
  case (Cons x xs)
  show ?case
  proof (cases "Count x > 0")
    case True
    define c2 where "c2 = (if c > 0 \<and> Date x \<noteq> p + 1 then 0 else c) + 1"
    define l2 where "l2 = (if c2 > l then c2 else l)"
    have "longest_loop (l, c, p) (x # xs) = longest_loop (l2, c2, Date x) xs"
      using True by (simp add: Let_def c2_def l2_def)
    moreover have "l \<le> l2" by (simp add: l2_def)
    ultimately show ?thesis using Cons.IH[of l2 c2 "Date x"] by simp
  next
    case False
    then have "longest_loop (l, c, p) (x # xs) = longest_loop (l, 0, p) xs" by (simp add: Let_def)
    then show ?thesis using Cons.IH[of l 0 p] by simp
  qed
qed

lemma longest_loop_current_nonneg:
  "0 \<le> c \<Longrightarrow> 0 \<le> fst (snd (longest_loop (l, c, p) xs))"
proof (induction xs arbitrary: l c p)
  case Nil
  then show ?case by simp
next
  case (Cons x xs)
  show ?case
  proof (cases "Count x > 0")
    case True
    define c2 where "c2 = (if c > 0 \<and> Date x \<noteq> p + 1 then 0 else c) + 1"
    define l2 where "l2 = (if c2 > l then c2 else l)"
    have "longest_loop (l, c, p) (x # xs) = longest_loop (l2, c2, Date x) xs"
      using True by (simp add: Let_def c2_def l2_def)
    moreover have "0 \<le> c2" using Cons.prems by (simp add: c2_def)
    ultimately show ?thesis using Cons.IH[of c2 l2 "Date x"] by simp
  next
    case False
    then have "longest_loop (l, c, p) (x # xs) = longest_loop (l, 0, p) xs" by (simp add: Let_def)
    then show ?thesis using Cons.IH[of 0 l p] by simp
  qed
qed

text \<open>A run already in progress is extended by every entry of a chain.\<close>
lemma longest_loop_chain_continue:
  assumes "chain_up d run" "0 < c" "p = d - 1" "c \<le> l"
  shows "c + int (length run) \<le> fst (longest_loop (l, c, p) run)"
  using assms
proof (induction run arbitrary: l c p d)
  case Nil
  then show ?case by simp
next
  case (Cons x xs)
  have x: "Date x = d" "Count x > 0" "chain_up (d + 1) xs" using Cons.prems(1) by simp_all
  define l2 where "l2 = (if c + 1 > l then c + 1 else l)"
  have step: "longest_loop (l, c, p) (x # xs) = longest_loop (l2, c + 1, d) xs"
    using x Cons.prems(2,3) by (simp add: Let_def l2_def)
  have "c + 1 + int (length xs) \<le> fst (longest_loop (l2, c + 1, d) xs)"
    using Cons.IH[OF x(3), of "c + 1" d l2] Cons.prems(2) by (simp add: l2_def)
  then show ?case unfolding step by simp
qed

lemma longest_loop_chain:
  assumes "chain_up d run" "0 \<le> c" "0 \<le> l"
  shows "int (length run) \<le> fst (longest_loop (l, c, p) run)"
proof (cases run)
  case Nil
  then show ?thesis using assms(3) by simp
next
  case (Cons x xs)
  have x: "Date x = d" "Count x > 0" "chain_up (d + 1) xs" using assms(1) Cons by simp_all
  define c2 where "c2 = (if c > 0 \<and> Date x \<noteq> p + 1 then 0 else c) + 1"
  define l2 where "l2 = (if c2 > l then c2 else l)"
  have step: "longest_loop (l, c, p) (x # xs) = longest_loop (l2, c2, d) xs"
    using x by (simp add: Let_def c2_def l2_def)
  have c2: "1 \<le> c2" using assms(2) by (simp add: c2_def)
  have "c2 + int (length xs) \<le> fst (longest_loop (l2, c2, d) xs)"
    using longest_loop_chain_continue[OF x(3), of c2 d l2] c2 by (simp add: l2_def)
  then show ?thesis unfolding Cons step using c2 by simp
qed

text \<open>
  C2. For every contribution sequence with non-decreasing dates and one entry per day
  (so the dates are strictly increasing), the longest streak is at least the current
  streak, whatever the current date is.
\<close>

theorem longest_ge_current:
  assumes "sorted (map Date cs)" "distinct (map Date cs)"
  shows "calculateCurrentStreak today cs \<le> calculateLongestStreak cs"
proof (cases "cs = []")
  case True
  then show ?thesis by (simp add: calculateCurrentStreak_def calculateLongestStreak_def)
next
  case False
  have "sorted_wrt (<) (map Date cs)" using assms by (simp add: strict_sorted_iff)
  then have "sorted_wrt (>) (map Date (rev cs))" by (simp only: rev_map[symmetric] sorted_wrt_rev)
  then obtain skip run rest e where r: "rev cs = skip @ run @ rest" "chain_down e run"
      "current_loop today 0 today (rev cs) = int (length run)"
    using current_loop_run by blast
  have cs: "cs = rev rest @ rev run @ rev skip"
    using r(1) by (metis rev_append rev_rev_ident append_assoc)
  obtain l1 c1 p1 where st1: "longest_loop (0, 0, zeroDate) (rev rest) = (l1, c1, p1)"
    by (cases "longest_loop (0, 0, zeroDate) (rev rest)") auto
  have l1: "0 \<le> l1" using longest_loop_mono[of 0 0 zeroDate "rev rest"] st1 by simp
  have c1: "0 \<le> c1" using longest_loop_current_nonneg[of 0 0 zeroDate "rev rest"] st1 by simp
  have up: "chain_up (e - int (length run) + 1) (rev run)" using chain_down_rev[OF r(2)] .
  obtain l2 c2 p2 where st2: "longest_loop (l1, c1, p1) (rev run) = (l2, c2, p2)"
    by (cases "longest_loop (l1, c1, p1) (rev run)") auto
  have l2: "int (length run) \<le> l2" using longest_loop_chain[OF up c1 l1, of p1] st2 by simp
  have "longest_loop (0, 0, zeroDate) cs = longest_loop (l2, c2, p2) (rev skip)"
    by (subst cs) (simp only: longest_loop_append st1 st2)
  then have "l2 \<le> fst (longest_loop (0, 0, zeroDate) cs)"
    using longest_loop_mono[of l2 c2 p2 "rev skip"] by simp
  then show ?thesis using False l2 r(3)
    by (simp add: calculateCurrentStreak_def calculateLongestStreak_def)
qed

theorem longest_ge_current_witness:
  "calculateCurrentStreak 12 [\<lparr>Date = 8, Count = 1\<rparr>, \<lparr>Date = 9, Count = 0\<rparr>,
       \<lparr>Date = 10, Count = 2\<rparr>, \<lparr>Date = 11, Count = 4\<rparr>] = 2 \<and>
   calculateLongestStreak [\<lparr>Date = 8, Count = 1\<rparr>, \<lparr>Date = 9, Count = 0\<rparr>,
       \<lparr>Date = 10, Count = 2\<rparr>, \<lparr>Date = 11, Count = 4\<rparr>] = 2"
  using longest_ge_current [of "[\<lparr>Date = 8, Count = 1\<rparr>, \<lparr>Date = 9, Count = 0\<rparr>,
       \<lparr>Date = 10, Count = 2\<rparr>, \<lparr>Date = 11, Count = 4\<rparr>]" 12]
  by (simp add: calculateCurrentStreak_def calculateLongestStreak_def Let_def)

text \<open>
  The precondition of one entry per day is needed: with two entries for day 5, the
  backward scan skips the second one and counts a streak the forward scan has broken.
\<close>

lemma duplicate_day_example:
  "calculateCurrentStreak 5
     [\<lparr>Date = 4, Count = 1\<rparr>, \<lparr>Date = 5, Count = 0\<rparr>, \<lparr>Date = 5, Count = 1\<rparr>] = 2 \<and>
   calculateLongestStreak
     [\<lparr>Date = 4, Count = 1\<rparr>, \<lparr>Date = 5, Count = 0\<rparr>, \<lparr>Date = 5, Count = 1\<rparr>] = 1"
  by (simp add: calculateCurrentStreak_def calculateLongestStreak_def Let_def)

text \<open>
  An entry for today with no contributions ends the backward scan at once, whatever
  precedes it.
\<close>

lemma current_streak_zero_today:
  assumes "Date c = today" and "\<not> Count c > 0"
  shows "calculateCurrentStreak today (cs @ [c]) = 0"
  using assms by (simp add: calculateCurrentStreak_def)

text \<open>
  C1. The grace rule: when today's entry has count 0 and the days before it form a run
  of \<open>n\<close> days with positive counts, the current streak should be \<open>n\<close>. The code
  applies the rule only when today's entry is absent from the sequence: with day 100 as
  today and days 98 and 99 active, it returns 2 when the sequence ends at day 99, but 0
  when the sequence ends with the entry \<open>(100, 0)\<close>.
\<close>

theorem currentStreak_today_zero:
  "calculateCurrentStreak 100
     [\<lparr>Date = 98, Count = 2\<rparr>, \<lparr>Date = 99, Count = 3\<rparr>, \<lparr>Date = 100, Count = 0\<rparr>] = 0 \<and>
   calculateCurrentStreak 100 [\<lparr>Date = 98, Count = 2\<rparr>, \<lparr>Date = 99, Count = 3\<rparr>] = 2"
  by (simp add: calculateCurrentStreak_def)

subsection \<open>Grid builder\<close>

lemma sunday_loop_eq: "sunday_loop d = d - Weekday d"
proof (induction d rule: sunday_loop.induct)
  case (1 d)
  show ?case
  proof (cases "Weekday d = 0")
    case True
    then show ?thesis by (simp add: sunday_loop.simps[of d])
  next
    case False
    then show ?thesis using 1 False Weekday_pred[OF False] by (simp add: sunday_loop.simps[of d])
  qed
qed

lemma Weekday_range: "0 \<le> Weekday d \<and> Weekday d < 7"
  by (simp add: Weekday_def)

lemma grid_shape_empty: "grid_shape emptyGrid"
  by (simp add: grid_shape_def emptyGrid_def daysPerWeek_def weeksToDisplay_def)

lemma emptyGrid_cell: "r < 7 \<Longrightarrow> w < 52 \<Longrightarrow> emptyGrid ! r ! w = 0"
  by (simp add: emptyGrid_def daysPerWeek_def weeksToDisplay_def)

lemma cell_of_range: "cell_of a c = Some (r, w) \<Longrightarrow> r < 7 \<and> w < 52"
  by (auto simp: cell_of_def Let_def weeksToDisplay_def daysPerWeek_def split: if_splits)

lemma grid_store_shape:
  assumes "grid_shape g" "r < 7" "w < 52"
  shows "\<exists>g'. grid_store g (int r) (int w) v = Inr g' \<and> grid_shape g' \<and>
           g' ! r ! w = v \<and>
           (\<forall>r' w'. (r', w') \<noteq> (r, w) \<longrightarrow> r' < 7 \<longrightarrow> g' ! r' ! w' = g ! r' ! w')"
proof -
  have len: "length g = 7" and row: "length (g ! r) = 52"
    using assms by (auto simp: grid_shape_def)
  define g' where "g' = g[r := (g ! r)[w := v]]"
  have st: "grid_store g (int r) (int w) v = Inr g'"
    using assms len row by (simp add: grid_store_def g'_def)
  have sh: "grid_shape g'"
    using assms(1) len row unfolding grid_shape_def g'_def
    by (auto dest!: set_update_subset_insert[THEN subsetD])
  have rd: "g' ! r ! w = v" using assms len row by (simp add: g'_def)
  have oth: "\<forall>r' w'. (r', w') \<noteq> (r, w) \<longrightarrow> r' < 7 \<longrightarrow> g' ! r' ! w' = g ! r' ! w'"
  proof (intro allI impI)
    fix r' w' assume ne: "(r', w') \<noteq> (r, w)" and r': "r' < 7"
    show "g' ! r' ! w' = g ! r' ! w'"
    proof (cases "r' = r")
      case True
      then have "w' \<noteq> w" using ne by simp
      moreover have "g' ! r = (g ! r)[w := v]" using assms(2) len by (simp add: g'_def)
      ultimately show ?thesis using True by simp
    next
      case False
      then show ?thesis by (simp add: g'_def)
    qed
  qed
  show ?thesis using st sh rd oth by blast
qed

lemma fill_loop_step:
  "fill_loop a g (c # cs) =
     (case cell_of a c of
        None \<Rightarrow> fill_loop a g cs
      | Some (r, w) \<Rightarrow> (case grid_store g (int r) (int w) (Count c) of
                          Inl e \<Rightarrow> Inl e | Inr g' \<Rightarrow> fill_loop a g' cs))"
  by (simp add: cell_of_def Let_def)

lemma fill_loop_cells:
  assumes "grid_shape g"
  shows "\<exists>g'. fill_loop a g cs = Inr g' \<and> grid_shape g' \<and>
           cells_kept a cs g g' \<and> cells_stored a cs g'"
  using assms
proof (induction cs arbitrary: g)
  case Nil
  then show ?case by (simp add: cells_kept_def cells_stored_def)
next
  case (Cons x xs)
  show ?case
  proof (cases "cell_of a x")
    case None
    obtain g' where g': "fill_loop a g xs = Inr g'" "grid_shape g'"
      "cells_kept a xs g g'" "cells_stored a xs g'"
      using Cons.IH[OF Cons.prems] by blast
    have 1: "fill_loop a g (x # xs) = Inr g'"
      using None g'(1) by (simp add: fill_loop_step del: fill_loop.simps)
    have 2: "cells_kept a (x # xs) g g'" using g'(3) unfolding cells_kept_def by simp
    have 3: "cells_stored a (x # xs) g'"
      unfolding cells_stored_def
    proof (intro ballI allI impI)
      fix c r' w'
      assume h: "c \<in> set (x # xs)" "cell_of a c = Some (r', w')"
        "\<forall>c' \<in> set (x # xs). cell_of a c' = Some (r', w') \<longrightarrow> c' = c"
      have "c \<noteq> x" using h(2) None by auto
      then have "c \<in> set xs" using h(1) by simp
      moreover have "\<forall>c' \<in> set xs. cell_of a c' = Some (r', w') \<longrightarrow> c' = c" using h(3) by simp
      ultimately show "g' ! r' ! w' = Count c" using g'(4) h(2) unfolding cells_stored_def by blast
    qed
    show ?thesis using 1 g'(2) 2 3 by blast
  next
    case (Some rw)
    obtain r w where rw: "rw = (r, w)" by (cases rw)
    have cx: "cell_of a x = Some (r, w)" using Some rw by simp
    have rng: "r < 7" "w < 52" using cell_of_range[OF cx] by auto
    obtain g1 where g1: "grid_store g (int r) (int w) (Count x) = Inr g1" "grid_shape g1"
      "g1 ! r ! w = Count x"
      "\<forall>r' w'. (r', w') \<noteq> (r, w) \<longrightarrow> r' < 7 \<longrightarrow> g1 ! r' ! w' = g ! r' ! w'"
      using grid_store_shape[OF Cons.prems rng] by blast
    obtain g' where g': "fill_loop a g1 xs = Inr g'" "grid_shape g'"
      "cells_kept a xs g1 g'" "cells_stored a xs g'"
      using Cons.IH[OF g1(2)] by blast
    have 1: "fill_loop a g (x # xs) = Inr g'"
      using cx g1(1) g'(1) by (simp add: fill_loop_step del: fill_loop.simps)
    have 2: "cells_kept a (x # xs) g g'"
      unfolding cells_kept_def
    proof (intro allI impI)
      fix r' w' assume h: "r' < 7" "w' < 52" "\<forall>c \<in> set (x # xs). cell_of a c \<noteq> Some (r', w')"
      then have ne: "(r', w') \<noteq> (r, w)" using cx by auto
      have "\<forall>c \<in> set xs. cell_of a c \<noteq> Some (r', w')" using h(3) by simp
      then have "g' ! r' ! w' = g1 ! r' ! w'" using g'(3) h(1,2) unfolding cells_kept_def by blast
      then show "g' ! r' ! w' = g ! r' ! w'" using g1(4) ne h(1) by simp
    qed
    have 3: "cells_stored a (x # xs) g'"
      unfolding cells_stored_def
    proof (intro ballI allI impI)
      fix c r' w'
      assume h: "c \<in> set (x # xs)" "cell_of a c = Some (r', w')"
        "\<forall>c' \<in> set (x # xs). cell_of a c' = Some (r', w') \<longrightarrow> c' = c"
      have h3: "\<forall>c' \<in> set xs. cell_of a c' = Some (r', w') \<longrightarrow> c' = c" using h(3) by simp
      show "g' ! r' ! w' = Count c"
      proof (cases "c \<in> set xs")
        case True
        then show ?thesis using g'(4) h(2) h3 unfolding cells_stored_def by blast
      next
        case False
        then have eq: "c = x" using h(1) by simp
        then have cell: "r' = r" "w' = w" using h(2) cx by simp_all
        have "\<forall>c' \<in> set xs. cell_of a c' \<noteq> Some (r, w)" using h3 False cell by blast
        then have "g' ! r ! w = g1 ! r ! w" using g'(3) rng unfolding cells_kept_def by blast
        then show ?thesis using g1(3) eq cell by simp
      qed
    qed
    show ?thesis using 1 g'(2) 2 3 by blast
  qed
qed

lemma fill_loop_filter:
  "fill_loop a g (filter (\<lambda>c. cell_of a c \<noteq> None) cs) = fill_loop a g cs"
proof (induction cs arbitrary: g)
  case Nil
  then show ?case by simp
next
  case (Cons x xs)
  show ?case
  proof (cases "cell_of a x")
    case None
    then show ?thesis using Cons.IH[of g] by (simp add: fill_loop_step del: fill_loop.simps)
  next
    case (Some rw)
    obtain r w where rw: "rw = (r, w)" by (cases rw)
    have cx: "cell_of a x = Some (r, w)" using Some rw by simp
    show ?thesis
    proof (cases "grid_store g (int r) (int w) (Count x)")
      case (Inl e)
      then show ?thesis using cx by (simp add: fill_loop_step del: fill_loop.simps)
    next
      case (Inr g')
      then show ?thesis using cx Cons.IH[of g']
        by (simp add: fill_loop_step del: fill_loop.simps)
    qed
  qed
qed

lemma Weekday_shift:
  assumes "Weekday a = 0"
  shows "Weekday d = (d - a) mod 7"
proof -
  have "(d + 4) mod 7 = ((d - a) + (a + 4)) mod 7" by (simp add: algebra_simps)
  also have "\<dots> = ((d - a) mod 7 + (a + 4) mod 7) mod 7" by (simp only: mod_add_eq)
  also have "\<dots> = (d - a) mod 7" using assms by (simp add: Weekday_def)
  finally show ?thesis by (simp add: Weekday_def)
qed

lemma Weekday_back: "Weekday (d - Weekday d) = 0"
proof -
  have "d - (d + 4) mod 7 + 4 = (d + 4) - (d + 4) mod 7" by simp
  also have "\<dots> = 7 * ((d + 4) div 7)" by (simp add: minus_mod_eq_mult_div)
  finally show ?thesis by (simp add: Weekday_def)
qed

lemma divmod7:
  "0 \<le> y \<Longrightarrow> y < 7 \<Longrightarrow> (7 * x + y) div 7 = (x::int) \<and> (7 * x + y) mod 7 = y"
  by presburger

lemma far_outside: "(d::int) > 106751 \<Longrightarrow> \<not> d div 7 < 52"
  by presburger

lemma cell_of_eq:
  assumes sun: "Weekday a = 0" and ge: "a \<le> Date c"
  shows "cell_of a c =
     (if (Date c - a) div 7 < 52
      then Some (nat ((Date c - a) mod 7), nat ((Date c - a) div 7)) else None)"
proof -
  define d where "d = Date c - a"
  have d0: "0 \<le> d" using ge by (simp add: d_def)
  have wd: "Weekday (Date c) = d mod 7" using Weekday_shift[OF sun] by (simp add: d_def)
  have ds: "daysSince (Date c) a = (if d > 106751 then 106751 else d)"
    using d0 by (simp add: daysSince_def d_def Let_def)
  show ?thesis
  proof (cases "d > 106751")
    case True
    have k: "daysSince (Date c) a = 106751" using ds True by simp
    have q: "go_quo 106751 7 = 15250" by (simp add: go_quo_def wrap64_def)
    have "\<not> d div 7 < 52" using far_outside[OF True] .
    then show ?thesis unfolding d_def[symmetric]
      by (simp add: cell_of_def k q Let_def weeksToDisplay_def)
  next
    case False
    have k: "daysSince (Date c) a = d" using ds False by simp
    have "d < 2 ^ 63" using False by simp
    then have q: "go_quo d 7 = d div 7" using go_quo_bounds[OF d0] by simp
    have q0: "0 \<le> d div 7" using d0 by (simp add: pos_imp_zdiv_nonneg_iff)
    show ?thesis unfolding d_def[symmetric]
      using q0 by (simp add: cell_of_def k q wd Let_def weeksToDisplay_def daysPerWeek_def)
  qed
qed

lemma cell_of_iff:
  assumes sun: "Weekday a = 0" and ge: "a \<le> Date c"
  shows "(cell_of a c = Some (r, w)) = (r < 7 \<and> w < 52 \<and> Date c = a + 7 * int w + int r)"
proof -
  define d where "d = Date c - a"
  have d0: "0 \<le> d" using ge by (simp add: d_def)
  have cell: "cell_of a c = (if d div 7 < 52 then Some (nat (d mod 7), nat (d div 7)) else None)"
    using cell_of_eq[OF sun ge] by (simp add: d_def)
  have q0: "0 \<le> d div 7" using d0 by (simp add: pos_imp_zdiv_nonneg_iff)
  have m0: "0 \<le> d mod 7" "d mod 7 < 7" by simp_all
  have decomp: "d = 7 * (d div 7) + d mod 7" by simp
  show ?thesis
  proof
    assume "cell_of a c = Some (r, w)"
    then have h: "d div 7 < 52" "r = nat (d mod 7)" "w = nat (d div 7)"
      unfolding cell by (simp_all split: if_splits)
    have iw: "int w = d div 7" using h(3) q0 by simp
    have ir: "int r = d mod 7" using h(2) m0(1) by simp
    have "d = 7 * int w + int r" using decomp unfolding iw ir .
    then have dt: "Date c = a + 7 * int w + int r" by (simp add: d_def)
    have "int r < 7" unfolding ir using m0(2) .
    then have r7: "r < 7" by simp
    have "int w < 52" unfolding iw using h(1) .
    then have w52: "w < 52" by simp
    show "r < 7 \<and> w < 52 \<and> Date c = a + 7 * int w + int r" using r7 w52 dt by simp
  next
    assume h: "r < 7 \<and> w < 52 \<and> Date c = a + 7 * int w + int r"
    have d: "d = 7 * int w + int r" using h by (simp add: d_def)
    have r: "0 \<le> int r" "int r < 7" using h by simp_all
    have dm: "d div 7 = int w" "d mod 7 = int r" unfolding d using divmod7[OF r] by simp_all
    have "d div 7 < 52" unfolding dm using h by simp
    then show "cell_of a c = Some (r, w)" unfolding cell dm by simp
  qed
qed

text \<open>
  C3. For a non-empty contribution sequence with non-decreasing dates and one entry per
  date, let \<open>anchor\<close> be the start date computed by \<open>buildGrid\<close>: it is the Sunday on or
  before the first contribution's date. \<open>buildGrid\<close> returns a \<open>7 \<times> 52\<close> grid without a
  panic; every contribution whose week \<open>(date - anchor) div 7\<close> lies in \<open>0..51\<close> is read
  back at \<open>grid[weekday(date)][week]\<close> with its count; every cell that is not the cell of
  an in-window date of the sequence is 0, and the grid is the one built from the
  in-window contributions alone, so contributions outside the window change nothing;
  and the empty sequence yields the all-zero grid.
\<close>

theorem buildGrid_roundtrip:
  assumes "sorted (map Date (first # rest))" and "distinct (map Date (first # rest))"
  shows "\<exists>anchor grid.
     anchor = sunday_loop (Date first) \<and>
     Weekday anchor = 0 \<and> anchor \<le> Date first \<and> Date first < anchor + 7 \<and>
     buildGrid (first # rest) = Inr grid \<and>
     length grid = 7 \<and> (\<forall>row \<in> set grid. length row = 52) \<and>
     (\<forall>c \<in> set (first # rest).
        0 \<le> (Date c - anchor) div 7 \<and> (Date c - anchor) div 7 < 52 \<longrightarrow>
        grid ! nat (Weekday (Date c)) ! nat ((Date c - anchor) div 7) = Count c) \<and>
     (\<forall>r w. r < 7 \<longrightarrow> w < 52 \<longrightarrow>
        (\<forall>c \<in> set (first # rest). Date c \<noteq> anchor + 7 * int w + int r) \<longrightarrow>
        grid ! r ! w = 0) \<and>
     buildGrid (filter (\<lambda>c. 0 \<le> (Date c - anchor) div 7 \<and> (Date c - anchor) div 7 < 52)
                  (first # rest)) = Inr grid \<and>
     buildGrid [] = Inr emptyGrid \<and>
     (\<forall>r w. r < 7 \<longrightarrow> w < 52 \<longrightarrow> emptyGrid ! r ! w = 0)"
proof -
  define cs where "cs = first # rest"
  define a where "a = sunday_loop (Date first)"
  have a_eq: "a = Date first - Weekday (Date first)" by (simp add: a_def sunday_loop_eq)
  have sun: "Weekday a = 0" unfolding a_eq by (rule Weekday_back)
  have a_le: "a \<le> Date first" "Date first < a + 7"
    using Weekday_range[of "Date first"] by (simp_all add: a_eq)
  have ge: "a \<le> Date c" if "c \<in> set cs" for c
  proof -
    have "Date first \<le> Date c" using assms(1) that by (auto simp: cs_def)
    then show ?thesis using a_le(1) by simp
  qed
  have inj: "c' = c" if "c \<in> set cs" "c' \<in> set cs" "Date c' = Date c" for c c'
    using assms(2) that unfolding cs_def[symmetric] by (auto simp: distinct_map dest: inj_onD)
  obtain g where g: "fill_loop a emptyGrid cs = Inr g" "grid_shape g"
    "cells_kept a cs emptyGrid g" "cells_stored a cs g"
    using fill_loop_cells[OF grid_shape_empty] by blast
  have bg: "buildGrid (first # rest) = Inr g" using g(1) by (simp add: buildGrid_def a_def cs_def)
  have shape: "length g = 7" "\<forall>row \<in> set g. length row = 52"
    using g(2) by (simp_all add: grid_shape_def)
  have rt: "\<forall>c \<in> set (first # rest).
        0 \<le> (Date c - a) div 7 \<and> (Date c - a) div 7 < 52 \<longrightarrow>
        g ! nat (Weekday (Date c)) ! nat ((Date c - a) div 7) = Count c"
  proof (intro ballI impI)
    fix c assume c: "c \<in> set (first # rest)"
      and win: "0 \<le> (Date c - a) div 7 \<and> (Date c - a) div 7 < 52"
    have cin: "c \<in> set cs" using c by (simp add: cs_def)
    define r where "r = nat (Weekday (Date c))"
    define w where "w = nat ((Date c - a) div 7)"
    have r: "int r = (Date c - a) mod 7" "r < 7"
      using Weekday_shift[OF sun, of "Date c"] by (simp_all add: r_def)
    have w: "int w = (Date c - a) div 7" "w < 52" using win by (auto simp: w_def)
    have "Date c - a = 7 * ((Date c - a) div 7) + (Date c - a) mod 7" by simp
    then have dt: "Date c = a + 7 * int w + int r" using r(1) w(1) by simp
    have cell: "cell_of a c = Some (r, w)"
      using cell_of_iff[OF sun ge[OF cin], of r w] r(2) w(2) dt by simp
    have uniq: "\<forall>c' \<in> set cs. cell_of a c' = Some (r, w) \<longrightarrow> c' = c"
    proof (intro ballI impI)
      fix c' assume c': "c' \<in> set cs" and "cell_of a c' = Some (r, w)"
      then have "Date c' = a + 7 * int w + int r" using cell_of_iff[OF sun ge[OF c']] by simp
      then show "c' = c" using inj[OF cin c'] dt by simp
    qed
    have "g ! r ! w = Count c" using g(4) cin cell uniq unfolding cells_stored_def by blast
    then show "g ! nat (Weekday (Date c)) ! nat ((Date c - a) div 7) = Count c"
      by (simp add: r_def w_def)
  qed
  have zero: "\<forall>r w. r < 7 \<longrightarrow> w < 52 \<longrightarrow>
        (\<forall>c \<in> set (first # rest). Date c \<noteq> a + 7 * int w + int r) \<longrightarrow> g ! r ! w = 0"
  proof (intro allI impI)
    fix r w :: nat
    assume rw: "r < 7" "w < 52"
      and none: "\<forall>c \<in> set (first # rest). Date c \<noteq> a + 7 * int w + int r"
    have "\<forall>c \<in> set cs. cell_of a c \<noteq> Some (r, w)"
    proof
      fix c assume cin: "c \<in> set cs"
      then have "Date c \<noteq> a + 7 * int w + int r" using none unfolding cs_def by blast
      then show "cell_of a c \<noteq> Some (r, w)" using cell_of_iff[OF sun ge[OF cin]] by simp
    qed
    then have "g ! r ! w = emptyGrid ! r ! w" using g(3) rw unfolding cells_kept_def by blast
    then show "g ! r ! w = 0" using emptyGrid_cell[OF rw] by simp
  qed
  define P where "P = (\<lambda>c::Contribution. 0 \<le> (Date c - a) div 7 \<and> (Date c - a) div 7 < 52)"
  have Pc: "P c = (cell_of a c \<noteq> None)" if "c \<in> set cs" for c
  proof -
    have "0 \<le> Date c - a" using ge[OF that] by simp
    then have "0 \<le> (Date c - a) div 7" by (simp add: pos_imp_zdiv_nonneg_iff)
    then show ?thesis unfolding P_def cell_of_eq[OF sun ge[OF that]] by simp
  qed
  have flt: "filter P cs = filter (\<lambda>c. cell_of a c \<noteq> None) cs"
    using Pc by (intro filter_cong) simp_all
  have "first \<in> set cs" by (simp add: cs_def)
  moreover have "cell_of a first \<noteq> None"
  proof -
    have "0 \<le> Date first - a" "Date first - a < 7" using a_le by simp_all
    then have "(Date first - a) div 7 = 0" by simp
    then show ?thesis unfolding cell_of_eq[OF sun a_le(1)] by simp
  qed
  ultimately have "P first" using Pc by blast
  then have hd: "filter P (first # rest) = first # filter P rest" by simp
  have "buildGrid (filter P (first # rest)) = fill_loop a emptyGrid (filter P cs)"
    unfolding hd by (simp add: buildGrid_def a_def cs_def \<open>P first\<close>)
  also have "\<dots> = fill_loop a emptyGrid cs" unfolding flt by (rule fill_loop_filter)
  finally have drop: "buildGrid (filter (\<lambda>c. 0 \<le> (Date c - a) div 7 \<and> (Date c - a) div 7 < 52)
      (first # rest)) = Inr g" using g(1) by (simp add: P_def)
  have e1: "buildGrid [] = Inr emptyGrid" by (simp add: buildGrid_def)
  have e2: "\<forall>r w. r < 7 \<longrightarrow> w < 52 \<longrightarrow> emptyGrid ! r ! w = 0" using emptyGrid_cell by blast
  have "a = sunday_loop (Date first) \<and>
     Weekday a = 0 \<and> a \<le> Date first \<and> Date first < a + 7 \<and>
     buildGrid (first # rest) = Inr g \<and>
     length g = 7 \<and> (\<forall>row \<in> set g. length row = 52) \<and>
     (\<forall>c \<in> set (first # rest).
        0 \<le> (Date c - a) div 7 \<and> (Date c - a) div 7 < 52 \<longrightarrow>
        g ! nat (Weekday (Date c)) ! nat ((Date c - a) div 7) = Count c) \<and>
     (\<forall>r w. r < 7 \<longrightarrow> w < 52 \<longrightarrow>
        (\<forall>c \<in> set (first # rest). Date c \<noteq> a + 7 * int w + int r) \<longrightarrow>
        g ! r ! w = 0) \<and>
     buildGrid (filter (\<lambda>c. 0 \<le> (Date c - a) div 7 \<and> (Date c - a) div 7 < 52)
                  (first # rest)) = Inr g \<and>
     buildGrid [] = Inr emptyGrid \<and>
     (\<forall>r w. r < 7 \<longrightarrow> w < 52 \<longrightarrow> emptyGrid ! r ! w = 0)"
    using a_def sun a_le bg shape rt zero drop e1 e2 by (intro conjI)
  then show ?thesis by (intro exI)
qed

theorem buildGrid_roundtrip_witness:
  "\<exists>grid. buildGrid [\<lparr>Date = 3, Count = 5\<rparr>, \<lparr>Date = 4, Count = 1\<rparr>,
                       \<lparr>Date = 400, Count = 9\<rparr>] = Inr grid \<and>
          grid ! 0 ! 0 = 5 \<and> grid ! 1 ! 0 = 1 \<and> grid ! 2 ! 0 = 0"
proof -
  let ?f = "\<lparr>Date = 3, Count = 5\<rparr>"
  let ?r = "[\<lparr>Date = 4, Count = 1\<rparr>, \<lparr>Date = 400, Count = 9\<rparr>]"
  have s: "sorted (map Date (?f # ?r))" and d: "distinct (map Date (?f # ?r))" by simp_all
  obtain anchor grid where h: "anchor = sunday_loop (Date ?f)"
      "buildGrid (?f # ?r) = Inr grid"
      "\<forall>c \<in> set (?f # ?r).
        0 \<le> (Date c - anchor) div 7 \<and> (Date c - anchor) div 7 < 52 \<longrightarrow>
        grid ! nat (Weekday (Date c)) ! nat ((Date c - anchor) div 7) = Count c"
      "\<forall>r w. r < 7 \<longrightarrow> w < 52 \<longrightarrow>
        (\<forall>c \<in> set (?f # ?r). Date c \<noteq> anchor + 7 * int w + int r) \<longrightarrow> grid ! r ! w = 0"
    using buildGrid_roundtrip [OF s d] by blast
  have a: "anchor = 3" using h(1) by (simp add: sunday_loop_eq Weekday_def)
  have c1: "grid ! 0 ! 0 = 5" and c2: "grid ! 1 ! 0 = 1"
    using h(3) unfolding a by (simp_all add: Weekday_def)
  have "(2::nat) < 7 \<longrightarrow> (0::nat) < 52 \<longrightarrow>
        (\<forall>c \<in> set (?f # ?r). Date c \<noteq> anchor + 7 * int 0 + int 2) \<longrightarrow> grid ! 2 ! 0 = 0"
    using h(4) by blast
  then have c3: "grid ! 2 ! 0 = 0" unfolding a by simp
  show ?thesis using h(2) c1 c2 c3 by blast
qed

subsection \<open>Calendar renderer\<close>


















subsection \<open>Peak coding hour\<close>

lemma sort_inner_step:
  "j < length hs \<Longrightarrow>
   sort_inner i j hs =
     sort_inner i (j + 1) (if hs ! i > hs ! j then hs[i := hs ! j, j := hs ! i] else hs)"
  by (subst sort_inner.simps) simp

lemma sort_inner_done: "\<not> j < length hs \<Longrightarrow> sort_inner i j hs = hs"
  by (subst sort_inner.simps) simp

lemma mset_sort_inner: "i < length hs \<Longrightarrow> mset (sort_inner i j hs) = mset hs"
proof (induction i j hs rule: sort_inner.induct)
  case (1 i j hs)
  show ?case
  proof (cases "j < length hs")
    case False
    then show ?thesis by (simp add: sort_inner_done)
  next
    case True
    define hs' where "hs' = (if hs ! i > hs ! j then hs[i := hs ! j, j := hs ! i] else hs)"
    have len: "length hs' = length hs" by (simp add: hs'_def)
    have m: "mset hs' = mset hs"
      using mset_swap[of j hs i] True "1.prems" by (simp add: hs'_def)
    have "mset (sort_inner i (j + 1) hs') = mset hs'"
      using "1.IH"[OF True] "1.prems" len unfolding hs'_def by simp
    then show ?thesis using m sort_inner_step[OF True, of i] unfolding hs'_def by simp
  qed
qed

lemma take_sort_inner: "i < j \<Longrightarrow> take i (sort_inner i j hs) = take i hs"
proof (induction i j hs rule: sort_inner.induct)
  case (1 i j hs)
  show ?case
  proof (cases "j < length hs")
    case False
    then show ?thesis by (simp add: sort_inner_done)
  next
    case True
    define hs' where "hs' = (if hs ! i > hs ! j then hs[i := hs ! j, j := hs ! i] else hs)"
    have t: "take i hs' = take i hs" using "1.prems" by (simp add: hs'_def)
    have "take i (sort_inner i (j + 1) hs') = take i hs'"
      using "1.IH"[OF True] "1.prems" unfolding hs'_def by simp
    then show ?thesis using t sort_inner_step[OF True, of i] unfolding hs'_def by simp
  qed
qed

lemma sort_inner_least:
  assumes "i < j" "\<forall>k. i < k \<and> k < j \<longrightarrow> hs ! i \<le> hs ! k"
  shows "\<forall>k. i < k \<and> k < length hs \<longrightarrow> sort_inner i j hs ! i \<le> sort_inner i j hs ! k"
  using assms
proof (induction i j hs rule: sort_inner.induct)
  case (1 i j hs)
  show ?case
  proof (cases "j < length hs")
    case False
    then show ?thesis using "1.prems" by (simp add: sort_inner_done)
  next
    case True
    define hs' where "hs' = (if hs ! i > hs ! j then hs[i := hs ! j, j := hs ! i] else hs)"
    have len: "length hs' = length hs" by (simp add: hs'_def)
    have ilen: "i < length hs" using True "1.prems"(1) by simp
    have inv: "\<forall>k. i < k \<and> k < j + 1 \<longrightarrow> hs' ! i \<le> hs' ! k"
    proof (intro allI impI)
      fix k assume k: "i < k \<and> k < j + 1"
      show "hs' ! i \<le> hs' ! k"
      proof (cases "hs ! i > hs ! j")
        case False
        then have eq: "hs' = hs" by (simp add: hs'_def)
        show ?thesis
        proof (cases "k = j")
          case True
          then show ?thesis using False eq by simp
        next
          case False
          then have "k < j" using k by simp
          then show ?thesis using "1.prems"(2) k eq by simp
        qed
      next
        case gt: True
        then have eq: "hs' = hs[i := hs ! j, j := hs ! i]" by (simp add: hs'_def)
        have i': "hs' ! i = hs ! j" using "1.prems"(1) ilen unfolding eq by simp
        show ?thesis
        proof (cases "k = j")
          case True
          then have "hs' ! k = hs ! i" using \<open>j < length hs\<close> unfolding eq by simp
          then show ?thesis using i' gt by simp
        next
          case False
          then have kj: "k < j" using k by simp
          then have "hs' ! k = hs ! k" using k unfolding eq by simp
          moreover have "hs ! i \<le> hs ! k" using "1.prems"(2) k kj by simp
          ultimately show ?thesis using i' gt by simp
        qed
      qed
    qed
    have "\<forall>k. i < k \<and> k < length hs' \<longrightarrow>
        sort_inner i (j + 1) hs' ! i \<le> sort_inner i (j + 1) hs' ! k"
      using "1.IH"[OF True] "1.prems"(1) inv unfolding hs'_def by simp
    then show ?thesis using len sort_inner_step[OF True, of i] unfolding hs'_def by simp
  qed
qed

lemma sort_outer_sorted:
  assumes "sorted (take i hs)" "\<forall>x \<in> set (take i hs). \<forall>y \<in> set (drop i hs). x \<le> y"
  shows "sorted (sort_outer i hs) \<and> mset (sort_outer i hs) = mset hs"
  using assms
proof (induction i hs rule: sort_outer.induct)
  case (1 i hs)
  show ?case
  proof (cases "i < length hs")
    case False
    then have "sort_outer i hs = hs" by (subst sort_outer.simps) simp
    moreover have "take i hs = hs" using False by simp
    ultimately show ?thesis using "1.prems"(1) by simp
  next
    case True
    define hs' where "hs' = sort_inner i (i + 1) hs"
    have len: "length hs' = length hs" by (simp add: hs'_def length_sort_inner)
    have tk: "take i hs' = take i hs" by (simp add: hs'_def take_sort_inner)
    have ms: "mset hs' = mset hs" using True by (simp add: hs'_def mset_sort_inner)
    have "mset (take i hs') + mset (drop i hs') = mset (take i hs) + mset (drop i hs)"
      using ms by (metis append_take_drop_id mset_append)
    then have "mset (drop i hs') = mset (drop i hs)" unfolding tk by simp
    then have dr: "set (drop i hs') = set (drop i hs)" by (rule mset_eq_setD)
    have least: "\<forall>k. i < k \<and> k < length hs' \<longrightarrow> hs' ! i \<le> hs' ! k"
      using sort_inner_least[of i "i + 1" hs] len unfolding hs'_def by simp
    have ilen: "i < length hs'" using True len by simp
    have here: "hs' ! i \<in> set (drop i hs')"
      using ilen by (metis Cons_nth_drop_Suc list.set_intros(1))
    have tk1: "take (i + 1) hs' = take i hs' @ [hs' ! i]"
      using ilen by (simp add: take_Suc_conv_app_nth)
    have s1: "sorted (take (i + 1) hs')"
      unfolding tk1 using "1.prems" here dr tk by (simp add: sorted_append)
    have s2: "\<forall>x \<in> set (take (i + 1) hs'). \<forall>y \<in> set (drop (i + 1) hs'). x \<le> y"
    proof (intro ballI)
      fix x y assume x: "x \<in> set (take (i + 1) hs')" and y: "y \<in> set (drop (i + 1) hs')"
      obtain n where n: "n < length (drop (i + 1) hs')" "drop (i + 1) hs' ! n = y"
        using y unfolding in_set_conv_nth by blast
      define k where "k = i + 1 + n"
      have k: "i + 1 \<le> k" "k < length hs'" "y = hs' ! k"
        using n by (simp_all add: k_def)
      have ydr: "y \<in> set (drop i hs)"
        using y dr by (metis set_drop_subset_set_drop le_add1 subsetD)
      show "x \<le> y"
      proof (cases "x = hs' ! i")
        case True
        then show ?thesis using least k by simp
      next
        case False
        then have "x \<in> set (take i hs)" using x tk unfolding tk1 by simp
        then show ?thesis using "1.prems"(2) ydr by blast
      qed
    qed
    have "sorted (sort_outer (i + 1) hs') \<and> mset (sort_outer (i + 1) hs') = mset hs'"
      using "1.IH"[OF True] s1 s2 unfolding hs'_def by simp
    moreover have "sort_outer i hs = sort_outer (i + 1) hs'"
      using True by (subst sort_outer.simps) (simp add: hs'_def)
    ultimately show ?thesis using ms by simp
  qed
qed

lemma sort_outer_keys:
  assumes "distinct ks"
  shows "sort_outer 0 ks = sorted_list_of_set (set ks)"
proof -
  have s: "sorted (sort_outer 0 ks)" and m: "mset (sort_outer 0 ks) = mset ks"
    using sort_outer_sorted[of 0 ks] by simp_all
  have d: "distinct (sort_outer 0 ks)" using m assms by (metis mset_eq_imp_distinct_iff)
  have "set (sort_outer 0 ks) = set ks" using m by (rule mset_eq_setD)
  then show ?thesis using s d by (metis sorted_list_of_set.idem_if_sorted_distinct)
qed

lemma peak_loop_sorted:
  assumes "sorted hs" "distinct hs" "peak_loop m (mc0, ph0) hs = (mc, ph)"
  shows "mc0 \<le> mc \<and> (\<forall>h \<in> set hs. lookup0 m h \<le> mc) \<and>
         (if mc0 < mc
          then ph \<in> set hs \<and> lookup0 m ph = mc \<and> (\<forall>h \<in> set hs. lookup0 m h = mc \<longrightarrow> ph \<le> h)
          else mc = mc0 \<and> ph = ph0)"
  using assms
proof (induction hs arbitrary: mc0 ph0)
  case Nil
  then show ?case by simp
next
  case (Cons x xs)
  have srt: "sorted xs" "distinct xs" and lt: "\<forall>h \<in> set xs. x < h"
    using Cons.prems(1,2) by (auto simp: less_le)
  show ?case
  proof (cases "lookup0 m x > mc0")
    case True
    then have run: "peak_loop m (lookup0 m x, x) xs = (mc, ph)"
      using Cons.prems(3) by (simp add: Let_def)
    note IH = Cons.IH[OF srt run]
    have ge: "lookup0 m x \<le> mc" using IH by (rule conjunct1)
    have all: "\<forall>h \<in> set xs. lookup0 m h \<le> mc" using IH by (rule conjunct1[OF conjunct2])
    have ifp: "if lookup0 m x < mc
          then ph \<in> set xs \<and> lookup0 m ph = mc \<and> (\<forall>h \<in> set xs. lookup0 m h = mc \<longrightarrow> ph \<le> h)
          else mc = lookup0 m x \<and> ph = x" using IH by (rule conjunct2[OF conjunct2])
    have gt: "mc0 < mc" using True ge by linarith
    have ge0: "mc0 \<le> mc" using gt by linarith
    have allx: "\<forall>h \<in> set (x # xs). lookup0 m h \<le> mc" using ge all by simp
    show ?thesis
    proof (cases "lookup0 m x < mc")
      case True
      have p: "ph \<in> set xs \<and> lookup0 m ph = mc \<and> (\<forall>h \<in> set xs. lookup0 m h = mc \<longrightarrow> ph \<le> h)"
        using ifp unfolding if_P[OF True] .
      have ne: "lookup0 m x \<noteq> mc" using True by linarith
      have l: "\<forall>h \<in> set (x # xs). lookup0 m h = mc \<longrightarrow> ph \<le> h"
      proof (intro ballI impI)
        fix h assume "h \<in> set (x # xs)" "lookup0 m h = mc"
        then have "h \<in> set xs" using ne by auto
        then show "ph \<le> h" using p \<open>lookup0 m h = mc\<close> by blast
      qed
      have "ph \<in> set (x # xs)" using p by simp
      then show ?thesis unfolding if_P[OF gt] using ge0 allx p l by blast
    next
      case False
      have e: "mc = lookup0 m x \<and> ph = x" using ifp unfolding if_not_P[OF False] .
      have l: "\<forall>h \<in> set (x # xs). lookup0 m h = mc \<longrightarrow> ph \<le> h"
      proof (intro ballI impI)
        fix h assume h: "h \<in> set (x # xs)"
        have "x \<le> h" using h lt by (cases "h = x") auto
        then show "ph \<le> h" using e by simp
      qed
      have "ph \<in> set (x # xs)" "lookup0 m ph = mc" using e by simp_all
      then show ?thesis unfolding if_P[OF gt] using ge0 allx l by blast
    qed
  next
    case False
    then have run: "peak_loop m (mc0, ph0) xs = (mc, ph)"
      using Cons.prems(3) by (simp add: Let_def)
    note IH = Cons.IH[OF srt run]
    have ge: "mc0 \<le> mc" using IH by (rule conjunct1)
    have all: "\<forall>h \<in> set xs. lookup0 m h \<le> mc" using IH by (rule conjunct1[OF conjunct2])
    have ifp: "if mc0 < mc
          then ph \<in> set xs \<and> lookup0 m ph = mc \<and> (\<forall>h \<in> set xs. lookup0 m h = mc \<longrightarrow> ph \<le> h)
          else mc = mc0 \<and> ph = ph0" using IH by (rule conjunct2[OF conjunct2])
    have le: "lookup0 m x \<le> mc" using ge False by linarith
    have allx: "\<forall>h \<in> set (x # xs). lookup0 m h \<le> mc" using le all by simp
    show ?thesis
    proof (cases "mc0 < mc")
      case True
      have p: "ph \<in> set xs \<and> lookup0 m ph = mc \<and> (\<forall>h \<in> set xs. lookup0 m h = mc \<longrightarrow> ph \<le> h)"
        using ifp unfolding if_P[OF True] .
      have ne: "lookup0 m x \<noteq> mc" using False True by linarith
      have l: "\<forall>h \<in> set (x # xs). lookup0 m h = mc \<longrightarrow> ph \<le> h"
      proof (intro ballI impI)
        fix h assume "h \<in> set (x # xs)" "lookup0 m h = mc"
        then have "h \<in> set xs" using ne by auto
        then show "ph \<le> h" using p \<open>lookup0 m h = mc\<close> by blast
      qed
      have "ph \<in> set (x # xs)" using p by simp
      then show ?thesis unfolding if_P[OF True] using ge allx p l by blast
    next
      case nlt: False
      have e: "mc = mc0 \<and> ph = ph0" using ifp unfolding if_not_P[OF nlt] .
      show ?thesis unfolding if_not_P[OF nlt] using ge allx e by blast
    qed
  qed
qed

lemma hour_count_Cons:
  "hour_count cutoff (a # as) h =
     (if \<not> Before (Timestamp a) cutoff \<and> Hour (Timestamp a) = h then 1 else 0)
       + hour_count cutoff as h"
  by (simp add: hour_count_def)

lemma hour_count_nonneg: "0 \<le> hour_count cutoff as h"
  by (simp add: hour_count_def)

lemma count_loop_counts:
  "count_loop cutoff m as h =
     (if hour_count cutoff as h = 0 then m h else Some (lookup0 m h + hour_count cutoff as h))"
proof (induction as arbitrary: m)
  case Nil
  then show ?case by (simp add: hour_count_def)
next
  case (Cons a as)
  show ?case
  proof (cases "Before (Timestamp a) cutoff")
    case True
    then show ?thesis using Cons.IH[of m] by (simp add: hour_count_Cons)
  next
    case False
    define m' where "m' = m(Hour (Timestamp a) \<mapsto> lookup0 m (Hour (Timestamp a)) + 1)"
    have step: "count_loop cutoff m (a # as) h = count_loop cutoff m' as h"
      using False by (simp add: Let_def m'_def)
    have n0: "0 \<le> hour_count cutoff as h" by (rule hour_count_nonneg)
    show ?thesis
    proof (cases "Hour (Timestamp a) = h")
      case True
      have m'h: "m' h = Some (lookup0 m h + 1)" "lookup0 m' h = lookup0 m h + 1"
        using True by (simp_all add: m'_def lookup0_def)
      have hc: "hour_count cutoff (a # as) h = 1 + hour_count cutoff as h"
        using True False by (simp add: hour_count_Cons)
      have "hour_count cutoff (a # as) h \<noteq> 0" using hc n0 by simp
      then show ?thesis unfolding step Cons.IH[of m'] using m'h hc by simp
    next
      case neq: False
      have m'h: "m' h = m h" "lookup0 m' h = lookup0 m h"
        using neq by (simp_all add: m'_def lookup0_def)
      have hc: "hour_count cutoff (a # as) h = hour_count cutoff as h"
        using neq by (simp add: hour_count_Cons)
      show ?thesis unfolding step Cons.IH[of m'] using m'h hc by simp
    qed
  qed
qed

lemma hour_count_range:
  assumes "hour_count cutoff as h \<noteq> 0"
  shows "0 \<le> h \<and> h < 24"
proof -
  have "\<exists>a \<in> set as. \<not> Before (Timestamp a) cutoff \<and> Hour (Timestamp a) = h"
  proof (rule ccontr)
    assume "\<not> (\<exists>a \<in> set as. \<not> Before (Timestamp a) cutoff \<and> Hour (Timestamp a) = h)"
    then have "filter (\<lambda>a. \<not> Before (Timestamp a) cutoff \<and> Hour (Timestamp a) = h) as = []"
      unfolding filter_empty_conv by blast
    then have "hour_count cutoff as h = 0" unfolding hour_count_def by simp
    then show False using assms by simp
  qed
  then obtain a :: Activity where a: "Hour (Timestamp a) = h" by blast
  have "0 \<le> Hour (Timestamp a) \<and> Hour (Timestamp a) < 24" by (simp add: Hour_def)
  then show ?thesis unfolding a .
qed

lemma hour_count_mset:
  assumes "mset as' = mset as"
  shows "hour_count cutoff as' h = hour_count cutoff as h"
proof -
  let ?P = "\<lambda>a. \<not> Before (Timestamp a) cutoff \<and> Hour (Timestamp a) = h"
  have "mset (filter ?P as') = mset (filter ?P as)" using assms by (metis mset_filter)
  then have "length (filter ?P as') = length (filter ?P as)" by (rule mset_eq_length)
  then show ?thesis by (simp add: hour_count_def)
qed

text \<open>
  What the function computes, for any order of the keys of the map: the label of the
  smallest hour among those with the largest count, and the distribution itself.
\<close>

lemma peak_hour_least_max:
  assumes ko: "key_order (range_keys (count_loop (window_cutoff now window) Map.empty activities))
                 (count_loop (window_cutoff now window) Map.empty activities)"
    and ex: "\<exists>a \<in> set activities. \<not> Before (Timestamp a) (window_cutoff now window)"
  shows "\<exists>p. 0 \<le> p \<and> p < 24 \<and>
           0 < hour_count (window_cutoff now window) activities p \<and>
           (\<forall>h. hour_count (window_cutoff now window) activities h
                  \<le> hour_count (window_cutoff now window) activities p) \<and>
           (\<forall>h. hour_count (window_cutoff now window) activities h
                  = hour_count (window_cutoff now window) activities p \<longrightarrow> p \<le> h) \<and>
           fst (CalculatePeakCodingHour range_keys now activities window) = peak_label p"
proof -
  define cutoff where "cutoff = window_cutoff now window"
  define m where "m = count_loop cutoff Map.empty activities"
  define n where "n = hour_count cutoff activities"
  define hs where "hs = sort_outer 0 (range_keys m)"
  have mh: "m h = (if n h = 0 then None else Some (n h))" for h
    unfolding m_def n_def by (simp add: count_loop_counts lookup0_def)
  have l0: "lookup0 m h = n h" for h by (simp add: mh lookup0_def)
  have n0: "0 \<le> n h" for h unfolding n_def by (rule hour_count_nonneg)
  have dom: "dom m = {h. n h \<noteq> 0}" by (auto simp: mh dom_def)
  have ko': "distinct (range_keys m)" "set (range_keys m) = dom m"
    using ko unfolding key_order_def cutoff_def[symmetric] m_def[symmetric] by simp_all
  have fin: "finite (dom m)" using ko'(2) by (metis List.finite_set)
  have hs: "hs = sorted_list_of_set (dom m)"
    unfolding hs_def using sort_outer_keys[OF ko'(1)] ko'(2) by simp
  have hs_props: "sorted hs" "distinct hs" "set hs = dom m"
    unfolding hs using fin by simp_all
  obtain a where a: "a \<in> set activities" "\<not> Before (Timestamp a) cutoff"
    using ex unfolding cutoff_def by blast
  have "filter (\<lambda>b. \<not> Before (Timestamp b) cutoff \<and> Hour (Timestamp b) = Hour (Timestamp a))
          activities \<noteq> []"
    unfolding filter_empty_conv using a by blast
  then have some: "n (Hour (Timestamp a)) \<noteq> 0" by (simp add: n_def hour_count_def)
  then have pos: "0 < n (Hour (Timestamp a))" using n0[of "Hour (Timestamp a)"] by simp
  have amem: "Hour (Timestamp a) \<in> set hs" using some hs_props(3) dom by simp
  obtain mc ph where run: "peak_loop m (0, 0) hs = (mc, ph)"
    by (cases "peak_loop m (0, 0) hs") auto
  note pl = peak_loop_sorted[OF hs_props(1,2) run]
  have allmc: "\<forall>h \<in> set hs. n h \<le> mc" using pl l0 by simp
  then have mcpos: "0 < mc" using amem pos by fastforce
  then have p: "ph \<in> set hs" "n ph = mc" "\<forall>h \<in> set hs. n h = mc \<longrightarrow> ph \<le> h"
    using pl l0 by simp_all
  have phn: "n ph \<noteq> 0" using p(2) mcpos by simp
  have rng: "0 \<le> ph \<and> ph < 24" using hour_count_range[of cutoff activities ph] phn
    unfolding n_def by simp
  have max: "n h \<le> n ph" for h
  proof (cases "n h = 0")
    case True
    then show ?thesis using p(2) mcpos by simp
  next
    case False
    then have "h \<in> set hs" using hs_props(3) dom by simp
    then show ?thesis using allmc p(2) by simp
  qed
  have least: "n h = n ph \<longrightarrow> ph \<le> h" for h
  proof
    assume e: "n h = n ph"
    then have "n h \<noteq> 0" using phn by simp
    then have "h \<in> set hs" using hs_props(3) dom by simp
    then show "ph \<le> h" using p(3) e p(2) by simp
  qed
  have lab: "fst (CalculatePeakCodingHour range_keys now activities window) = peak_label ph"
    using run mcpos
    unfolding CalculatePeakCodingHour_def cutoff_def[symmetric] Let_def m_def[symmetric]
      hs_def[symmetric] by simp
  have "0 \<le> ph \<and> ph < 24 \<and> 0 < n ph \<and> (\<forall>h. n h \<le> n ph) \<and>
        (\<forall>h. n h = n ph \<longrightarrow> ph \<le> h) \<and>
        fst (CalculatePeakCodingHour range_keys now activities window) = peak_label ph"
    using rng p(2) mcpos max least lab by simp
  then show ?thesis unfolding n_def cutoff_def by (rule exI)
qed

lemma count_loop_mset:
  assumes "mset as' = mset as"
  shows "count_loop cutoff Map.empty as' = count_loop cutoff Map.empty as"
proof
  fix h
  show "count_loop cutoff Map.empty as' h = count_loop cutoff Map.empty as h"
    unfolding count_loop_counts hour_count_mset[OF assms] ..
qed

text \<open>
  C7. Whenever some activity lies at or after the cutoff, the label returned by
  \<open>CalculatePeakCodingHour\<close> is the label of an hour \<open>p\<close> in \<open>0..23\<close> whose count of
  in-window activities is the largest of all hours and which is the numerically smallest
  hour with that count. This holds for every order in which \<open>range\<close> may visit the keys
  of the map: the hours are scanned in ascending order, the sorted list of the keys.
  Hence a second run on any permutation of the activities, with any other key order,
  returns the same label.
\<close>

theorem peak_hour_tie_break:
  assumes "key_order (range_keys (count_loop (window_cutoff now window) Map.empty activities))
             (count_loop (window_cutoff now window) Map.empty activities)"
    and "\<exists>a \<in> set activities. \<not> Before (Timestamp a) (window_cutoff now window)"
    and "mset activities' = mset activities"
    and "key_order (range_keys' (count_loop (window_cutoff now window) Map.empty activities'))
             (count_loop (window_cutoff now window) Map.empty activities')"
  shows "\<exists>p. 0 \<le> p \<and> p < 24 \<and>
           0 < hour_count (window_cutoff now window) activities p \<and>
           (\<forall>h. hour_count (window_cutoff now window) activities h
                  \<le> hour_count (window_cutoff now window) activities p) \<and>
           (\<forall>h. hour_count (window_cutoff now window) activities h
                  = hour_count (window_cutoff now window) activities p \<longrightarrow> p \<le> h) \<and>
           fst (CalculatePeakCodingHour range_keys now activities window) = peak_label p \<and>
           sort_outer 0 (range_keys (count_loop (window_cutoff now window) Map.empty activities))
             = sorted_list_of_set (dom (count_loop (window_cutoff now window) Map.empty activities)) \<and>
           fst (CalculatePeakCodingHour range_keys' now activities' window) = peak_label p"
proof -
  define cutoff where "cutoff = window_cutoff now window"
  define n where "n = hour_count cutoff activities"
  have n': "hour_count cutoff activities' = n"
    unfolding n_def using hour_count_mset[OF assms(3)] by blast
  have ex': "\<exists>a \<in> set activities'. \<not> Before (Timestamp a) (window_cutoff now window)"
    using assms(2) mset_eq_setD[OF assms(3)] by simp
  obtain p where p: "0 \<le> p \<and> p < 24" "0 < n p" "\<forall>h. n h \<le> n p" "\<forall>h. n h = n p \<longrightarrow> p \<le> h"
      "fst (CalculatePeakCodingHour range_keys now activities window) = peak_label p"
    using peak_hour_least_max[where range_keys=range_keys and now=now and window=window
        and activities=activities, OF assms(1,2)] unfolding cutoff_def[symmetric] n_def[symmetric]
    by blast
  obtain q where q: "\<forall>h. n h \<le> n q" "\<forall>h. n h = n q \<longrightarrow> q \<le> h"
      "fst (CalculatePeakCodingHour range_keys' now activities' window) = peak_label q"
    using peak_hour_least_max[where range_keys=range_keys' and now=now and window=window
        and activities=activities', OF assms(4) ex'] unfolding cutoff_def[symmetric] n'
    by blast
  have "n p = n q" using p(3) q(1) by (meson order_antisym)
  then have "p = q" using p(4) q(2) by (metis order_antisym)
  then have lab': "fst (CalculatePeakCodingHour range_keys' now activities' window) = peak_label p"
    using q(3) by simp
  have srt: "sort_outer 0 (range_keys (count_loop cutoff Map.empty activities))
             = sorted_list_of_set (dom (count_loop cutoff Map.empty activities))"
    using assms(1) sort_outer_keys unfolding key_order_def cutoff_def[symmetric] by metis
  have "0 \<le> p \<and> p < 24 \<and> 0 < n p \<and> (\<forall>h. n h \<le> n p) \<and> (\<forall>h. n h = n p \<longrightarrow> p \<le> h) \<and>
        fst (CalculatePeakCodingHour range_keys now activities window) = peak_label p \<and>
        sort_outer 0 (range_keys (count_loop cutoff Map.empty activities))
             = sorted_list_of_set (dom (count_loop cutoff Map.empty activities)) \<and>
        fst (CalculatePeakCodingHour range_keys' now activities' window) = peak_label p"
    using p srt lab' by simp
  then show ?thesis unfolding n_def cutoff_def by (rule exI)
qed

theorem peak_hour_tie_break_witness:
  "fst (CalculatePeakCodingHour (\<lambda>_. [14, 10]) ex_now ex_acts ThisWeek) = ''10-11am'' \<and>
   fst (CalculatePeakCodingHour (\<lambda>_. [10, 14]) ex_now (rev ex_acts) ThisWeek) = ''10-11am'' \<and>
   (\<exists>p. 0 \<le> p \<and> p < 24 \<and>
      fst (CalculatePeakCodingHour (\<lambda>_. [14, 10]) ex_now ex_acts ThisWeek) = peak_label p \<and>
      fst (CalculatePeakCodingHour (\<lambda>_. [10, 14]) ex_now (rev ex_acts) ThisWeek) = peak_label p)"
proof -
  have m: "count_loop (window_cutoff ex_now ThisWeek) Map.empty ex_acts = [14 \<mapsto> 2, 10 \<mapsto> 2]"
    by (simp add: ex_acts_def ex_act_def ex_now_def window_cutoff_def AddDays_def Before_def
        Hour_def lookup0_def Let_def fun_upd_twist)
  have m': "count_loop (window_cutoff ex_now ThisWeek) Map.empty (rev ex_acts)
              = [14 \<mapsto> 2, 10 \<mapsto> 2]"
    by (simp add: ex_acts_def ex_act_def ex_now_def window_cutoff_def AddDays_def Before_def
        Hour_def lookup0_def Let_def fun_upd_twist)
  have h1: "key_order [14, 10] (count_loop (window_cutoff ex_now ThisWeek) Map.empty ex_acts)"
    unfolding m by (auto simp: key_order_def)
  have h2: "\<exists>a \<in> set ex_acts. \<not> Before (Timestamp a) (window_cutoff ex_now ThisWeek)"
    by (simp add: ex_acts_def ex_act_def ex_now_def window_cutoff_def AddDays_def Before_def)
  have h3: "mset (rev ex_acts) = mset ex_acts" by simp
  have h4: "key_order [10, 14]
              (count_loop (window_cutoff ex_now ThisWeek) Map.empty (rev ex_acts))"
    unfolding m' by (auto simp: key_order_def)
  obtain p where p: "0 \<le> p \<and> p < 24"
      "fst (CalculatePeakCodingHour (\<lambda>_. [14, 10]) ex_now ex_acts ThisWeek) = peak_label p"
      "fst (CalculatePeakCodingHour (\<lambda>_. [10, 14]) ex_now (rev ex_acts) ThisWeek) = peak_label p"
    using peak_hour_tie_break [where range_keys = "\<lambda>_. [14, 10]" and range_keys' = "\<lambda>_. [10, 14]"
        and now = ex_now and window = ThisWeek and activities = ex_acts
        and activities' = "rev ex_acts", OF h1 h2 h3 h4]
    by blast
  have e1: "fst (CalculatePeakCodingHour (\<lambda>_. [14, 10]) ex_now ex_acts ThisWeek) = ''10-11am''"
    by code_simp
  have e2: "fst (CalculatePeakCodingHour (\<lambda>_. [10, 14]) ex_now (rev ex_acts) ThisWeek)
              = ''10-11am''"
    by code_simp
  show ?thesis using e1 e2 p by blast
qed

lemma peak_label_all: "\<forall>h \<in> set [0..23]. peak_label h = spec_hour_range h"
  by code_simp

text \<open>
  C9. For every peak hour \<open>h\<close> in \<open>0..23\<close> the label is the range from \<open>h\<close> to
  \<open>(h + 1) mod 24\<close> on the 12-hour clock with lowercase meridiems, the meridiem written
  once when both ends share it; \<open>formatHourRange(2, "PM", 3, "PM")\<close> is \<open>2-3pm\<close> and
  \<open>formatHourRange(11, "AM", 12, "PM")\<close> is \<open>11am-12pm\<close>.
\<close>

theorem hour_range_format:
  "(0 \<le> h \<and> h < 24 \<longrightarrow> peak_label h = spec_hour_range h) \<and>
   formatHourRange 2 ''PM'' 3 ''PM'' = ''2-3pm'' \<and>
   formatHourRange 11 ''AM'' 12 ''PM'' = ''11am-12pm''"
proof -
  have a: "0 \<le> h \<and> h < 24 \<longrightarrow> peak_label h = spec_hour_range h"
  proof
    assume "0 \<le> h \<and> h < 24"
    then have "h \<in> set [0..23]" by simp
    then show "peak_label h = spec_hour_range h" using peak_label_all by blast
  qed
  have b: "formatHourRange 2 ''PM'' 3 ''PM'' = ''2-3pm''" by code_simp
  have c: "formatHourRange 11 ''AM'' 12 ''PM'' = ''11am-12pm''" by code_simp
  show ?thesis using a b c by blast
qed

theorem hour_range_format_witness:
  "peak_label 0 = ''12-1am'' \<and> peak_label 11 = ''11am-12pm'' \<and> peak_label 12 = ''12-1pm'' \<and>
   peak_label 14 = ''2-3pm'' \<and> peak_label 23 = ''11pm-12am''"
proof -
  have s: "spec_hour_range 0 = ''12-1am''" "spec_hour_range 11 = ''11am-12pm''"
    "spec_hour_range 12 = ''12-1pm''" "spec_hour_range 14 = ''2-3pm''"
    "spec_hour_range 23 = ''11pm-12am''" by code_simp+
  show ?thesis
    using hour_range_format [of 0] hour_range_format [of 11] hour_range_format [of 12]
      hour_range_format [of 14] hour_range_format [of 23] s by simp
qed

subsection \<open>Empty inputs\<close>

lemma count_loop_none:
  assumes "\<forall>a \<in> set activities. Before (Timestamp a) cutoff"
  shows "count_loop cutoff Map.empty activities = Map.empty"
proof
  fix h
  have "filter (\<lambda>a. \<not> Before (Timestamp a) cutoff \<and> Hour (Timestamp a) = h) activities = []"
    unfolding filter_empty_conv using assms by blast
  then have "hour_count cutoff activities h = 0" unfolding hour_count_def by simp
  then show "count_loop cutoff Map.empty activities h = None"
    unfolding count_loop_counts by simp
qed

text \<open>
  C8. Empty or out-of-window input gives zero and sentinel results, without a panic:
  \<open>CalculateStats\<close> on the empty sequence returns \<open>TotalDays = 0\<close> and
  \<open>AverageDay = 0\<close> (the division is not reached); the grid of the empty sequence is
  all zeros; both streaks of the empty sequence are 0; and when no activity lies at or
  after the cutoff, \<open>CalculatePeakCodingHour\<close> returns \<open>No data\<close> and an empty
  distribution.
\<close>

theorem empty_inputs:
  assumes "\<forall>a \<in> set activities. Before (Timestamp a) (window_cutoff now window)"
    and "key_order (range_keys Map.empty) Map.empty"
  shows "(\<exists>s. CalculateStats [] = Inr s \<and> TotalDays s = 0 \<and> AverageDay s = 0) \<and>
         buildGrid [] = Inr emptyGrid \<and>
         (\<forall>r w. r < 7 \<longrightarrow> w < 52 \<longrightarrow> emptyGrid ! r ! w = 0) \<and>
         calculateCurrentStreak today [] = 0 \<and>
         calculateLongestStreak [] = 0 \<and>
         CalculatePeakCodingHour range_keys now activities window = (''No data'', Map.empty)"
proof -
  have st: "\<exists>s. CalculateStats [] = Inr s \<and> TotalDays s = 0 \<and> AverageDay s = 0"
    by (simp add: CalculateStats_def)
  have gr: "buildGrid [] = Inr emptyGrid" by (simp add: buildGrid_def)
  have ze: "\<forall>r w. r < 7 \<longrightarrow> w < 52 \<longrightarrow> emptyGrid ! r ! w = 0" using emptyGrid_cell by blast
  have cu: "calculateCurrentStreak today [] = 0" by (simp add: calculateCurrentStreak_def)
  have lo: "calculateLongestStreak [] = 0" by (simp add: calculateLongestStreak_def)
  have m: "count_loop (window_cutoff now window) Map.empty activities = Map.empty"
    using assms(1) by (rule count_loop_none)
  have ks: "range_keys Map.empty = []" using assms(2) by (simp add: key_order_def)
  have so: "sort_outer 0 [] = []" by (subst sort_outer.simps) simp
  have pk: "CalculatePeakCodingHour range_keys now activities window = (''No data'', Map.empty)"
    by (simp add: CalculatePeakCodingHour_def m ks so Let_def)
  show ?thesis using st gr ze cu lo pk by blast
qed

theorem empty_inputs_witness:
  "CalculatePeakCodingHour (\<lambda>m. []) ex_now [ex_act 1719392400000000000] ThisWeek
     = (''No data'', Map.empty)"
proof -
  have h1: "\<forall>a \<in> set [ex_act 1719392400000000000].
      Before (Timestamp a) (window_cutoff ex_now ThisWeek)"
    by (simp add: ex_act_def ex_now_def window_cutoff_def AddDays_def Before_def)
  have h2: "key_order [] Map.empty" by (simp add: key_order_def)
  show ?thesis
    using empty_inputs [where range_keys = "\<lambda>m. []" and now = ex_now and window = ThisWeek
        and activities = "[ex_act 1719392400000000000]", OF h1 h2]
    by blast
qed

end
